theory Spec2Isabelle
  imports Complex_Main "HOL-Library.Word"
begin

section \<open>JavaScript numbers\<close>

text \<open>
  Every number of the program is an ECMAScript Number, an IEEE 754 binary64 value. A
  finite value is kept as the real number it denotes, and every arithmetic operation
  rounds its exact result to the nearest binary64 value, a tie going to the even
  significand, and to an infinity on overflow. The rules for NaN and the infinities are
  those of ECMAScript (\<open>0/0\<close> is NaN, \<open>x/0\<close> is an infinity, NaN is absorbing, every
  comparison with NaN is false). The sign of zero is not represented.
\<close>

datatype jsnum = Fin real | PInf | NInf | NaN

text \<open>The nearest integer, a tie going to the even one.\<close>

definition round_half_even :: "real \<Rightarrow> int" where
  "round_half_even q =
     (let f = \<lfloor>q\<rfloor>; d = q - real_of_int f
      in if d < 1 / 2 then f else if 1 / 2 < d then f + 1 else if even f then f else f + 1)"

text \<open>
  The exponent \<open>e\<close> with \<open>2\<^sup>e \<le> |x| < 2\<^sup>e\<^sup>+\<^sup>1\<close>, but at least \<open>-1022\<close>: the subnormal numbers
  share the spacing of the smallest normal ones. Neighbouring binary64 values with that
  exponent are \<open>2\<^sup>e\<^sup>-\<^sup>5\<^sup>2\<close> apart.
\<close>

definition binade :: "real \<Rightarrow> int" where
  "binade x = max \<lfloor>log 2 \<bar>x\<bar>\<rfloor> (- 1022)"

definition round_grid :: "real \<Rightarrow> real" where
  "round_grid x =
     (if x = 0 then 0
      else (let u = 2 powi (binade x - 52) in real_of_int (round_half_even (x / u)) * u))"

definition round64 :: "real \<Rightarrow> jsnum" where
  "round64 x =
     (let y = round_grid x
      in if 2 ^ 1024 \<le> y then PInf else if y \<le> - (2 ^ 1024) then NInf else Fin y)"

fun jneg :: "jsnum \<Rightarrow> jsnum" where
  "jneg (Fin x) = Fin (- x)"
| "jneg PInf = NInf"
| "jneg NInf = PInf"
| "jneg NaN = NaN"

fun jadd :: "jsnum \<Rightarrow> jsnum \<Rightarrow> jsnum" where
  "jadd NaN _ = NaN"
| "jadd _ NaN = NaN"
| "jadd (Fin x) (Fin y) = round64 (x + y)"
| "jadd (Fin x) PInf = PInf"
| "jadd (Fin x) NInf = NInf"
| "jadd PInf (Fin y) = PInf"
| "jadd NInf (Fin y) = NInf"
| "jadd PInf PInf = PInf"
| "jadd NInf NInf = NInf"
| "jadd PInf NInf = NaN"
| "jadd NInf PInf = NaN"

definition jsub :: "jsnum \<Rightarrow> jsnum \<Rightarrow> jsnum" where
  "jsub a b = jadd a (jneg b)"

text \<open>The sign of a non-NaN number: \<open>-1\<close>, \<open>0\<close> or \<open>1\<close>.\<close>

fun jsign :: "jsnum \<Rightarrow> int" where
  "jsign (Fin x) = (if x < 0 then - 1 else if x = 0 then 0 else 1)"
| "jsign PInf = 1"
| "jsign NInf = - 1"
| "jsign NaN = 0"

definition inf_of_sign :: "int \<Rightarrow> jsnum" where
  "inf_of_sign s = (if s < 0 then NInf else PInf)"

fun jmul :: "jsnum \<Rightarrow> jsnum \<Rightarrow> jsnum" where
  "jmul NaN _ = NaN"
| "jmul _ NaN = NaN"
| "jmul (Fin x) (Fin y) = round64 (x * y)"
| "jmul a b = (if jsign a = 0 \<or> jsign b = 0 then NaN else inf_of_sign (jsign a * jsign b))"

fun jdiv :: "jsnum \<Rightarrow> jsnum \<Rightarrow> jsnum" where
  "jdiv NaN _ = NaN"
| "jdiv _ NaN = NaN"
| "jdiv (Fin x) (Fin y) =
     (if y = 0 then (if x = 0 then NaN else inf_of_sign (jsign (Fin x))) else round64 (x / y))"
| "jdiv (Fin x) b = Fin 0"
| "jdiv a (Fin y) = inf_of_sign (if y = 0 then jsign a else jsign a * jsign (Fin y))"
| "jdiv a b = NaN"

text \<open>
  \<open>Math.pow\<close> for the exponents the program uses, \<open>0.667\<close> and \<open>1 - 0.667\<close>: positive
  and not an integer, so a negative base gives NaN, both infinities give \<open>+\<infinity>\<close> and \<open>0\<close>
  gives \<open>0\<close>. For a positive finite base ECMAScript leaves the result to the engine's
  approximation: it is the parameter \<open>Math_pow\<close>, which every function that evaluates
  an index formula passes on. With an exponent below \<open>1\<close> that result is finite.
\<close>

fun jpow :: "(real \<Rightarrow> real \<Rightarrow> real) \<Rightarrow> jsnum \<Rightarrow> real \<Rightarrow> jsnum" where
  "jpow Math_pow NaN e = NaN"
| "jpow Math_pow PInf e = PInf"
| "jpow Math_pow NInf e = PInf"
| "jpow Math_pow (Fin x) e =
     (if x < 0 then NaN else if x = 0 then Fin 0 else Fin (Math_pow x e))"

text \<open>The comparisons \<open>></\<close>, \<open>>=\<close>, \<open>===\<close> and \<open>!==\<close>.\<close>

fun jgt :: "jsnum \<Rightarrow> jsnum \<Rightarrow> bool" where
  "jgt NaN _ = False"
| "jgt _ NaN = False"
| "jgt (Fin x) (Fin y) = (x > y)"
| "jgt PInf b = (b \<noteq> PInf)"
| "jgt a NInf = (a \<noteq> NInf)"
| "jgt _ _ = False"

fun jeq :: "jsnum \<Rightarrow> jsnum \<Rightarrow> bool" where
  "jeq NaN _ = False"
| "jeq _ NaN = False"
| "jeq a b = (a = b)"

definition jge :: "jsnum \<Rightarrow> jsnum \<Rightarrow> bool" where
  "jge a b = (jgt a b \<or> jeq a b)"

definition jne :: "jsnum \<Rightarrow> jsnum \<Rightarrow> bool" where
  "jne a b = (\<not> jeq a b)"

section \<open>Pixel buffers\<close>

text \<open>
  \<open>ImageData.data\<close> is a \<open>Uint8ClampedArray\<close> holding four bytes per pixel, which the
  loops read in steps of four. The model keeps the buffer as the list of its pixels.
\<close>

record pixel =
  red :: "8 word"
  green :: "8 word"
  blue :: "8 word"
  alpha :: "8 word"

definition chan :: "8 word \<Rightarrow> int" where
  "chan w = uint w"

text \<open>
  What can be thrown: the \<open>IndexSizeError\<close> of the canvas API, the \<open>TypeError\<close> of a method
  call on \<open>undefined\<close>, and the rejection of the promise of \<open>loadImage\<close>.
  \<open>IndexOutsideArray\<close> marks a write outside the histogram, which JavaScript would not
  report.
\<close>

datatype js_error =
    IndexSizeError
  | IndexOutsideArray int
  | TypeError
  | LoadRejected

section \<open>calculateOtsuThreshold\<close>

text \<open>\<open>Math.round\<close> of a finite number: the nearest integer, a tie going up.\<close>

definition Math_round :: "real \<Rightarrow> int" where
  "Math_round x = \<lfloor>x + 1 / 2\<rfloor>"

definition otsu_bin :: "pixel \<Rightarrow> int" where
  "otsu_bin p =
     (let r = chan (red p); g = chan (green p); b = chan (blue p);
          exg = real_of_int ((2 * g - r - b) + 510) / 4
      in Math_round exg)"

text \<open>
  \<open>histogram[Math.round(exg)]++\<close>. An index outside the 256 slots would not raise in
  JavaScript (it would store NaN under a new property); the model reports it as
  \<open>IndexOutsideArray\<close>, so that its absence is a theorem about the code.
\<close>

fun build_histogram :: "pixel list \<Rightarrow> int list \<Rightarrow> js_error + int list" where
  "build_histogram [] histogram = Inr histogram"
| "build_histogram (p # data) histogram =
     (let i = otsu_bin p
      in if 0 \<le> i \<and> i < int (length histogram)
         then build_histogram data (histogram[nat i := histogram ! nat i + 1])
         else Inl (IndexOutsideArray i))"

text \<open>\<open>Math.pow(x, 2)\<close>: the square, rounded once.\<close>

definition Math_pow_2 :: "jsnum \<Rightarrow> jsnum" where
  "Math_pow_2 x = jmul x x"

text \<open>
  The scan over the 256 candidate bins, with the loop variables \<open>sumB\<close>, \<open>wB\<close>,
  \<open>maxVar\<close> and \<open>threshold\<close> as arguments. \<open>continue\<close> is the first recursive call,
  \<open>break\<close> returns \<open>threshold\<close>. The counts and the weighted sums are integers far below
  \<open>2\<^sup>5\<^sup>3\<close> for any canvas and are kept exact; the means and the variance are rounded at
  every operation, as written.
\<close>

function otsu_loop ::
  "int list \<Rightarrow> int \<Rightarrow> int \<Rightarrow> nat \<Rightarrow> int \<Rightarrow> int \<Rightarrow> jsnum \<Rightarrow> nat \<Rightarrow> nat" where
  "otsu_loop histogram totalN sumN t sumB wB maxVar threshold =
     (if t < 256 then
        (let wB' = wB + histogram ! t
         in if wB' = 0 then otsu_loop histogram totalN sumN (Suc t) sumB wB' maxVar threshold
            else
              (let wF = totalN - wB'
               in if wF = 0 then threshold
                  else
                    (let sumB' = sumB + int t * histogram ! t;
                         mB = jdiv (Fin (real_of_int sumB')) (Fin (real_of_int wB'));
                         mF = jdiv (Fin (real_of_int (sumN - sumB'))) (Fin (real_of_int wF));
                         variance = jmul (jmul (Fin (real_of_int wB')) (Fin (real_of_int wF)))
                                      (Math_pow_2 (jsub mB mF))
                     in if jgt variance maxVar
                        then otsu_loop histogram totalN sumN (Suc t) sumB' wB' variance t
                        else otsu_loop histogram totalN sumN (Suc t) sumB' wB' maxVar threshold)))
      else threshold)"
  by pat_completeness auto
termination
  by (relation "measure (\<lambda>(histogram, totalN, sumN, t, rest). 256 - t)") auto

declare otsu_loop.simps [simp del]

definition otsu_threshold_of_histogram :: "int list \<Rightarrow> jsnum" where
  "otsu_threshold_of_histogram histogram =
     (let totalN = foldl (\<lambda>acc val. acc + val) 0 histogram;
          sumN = foldl (\<lambda>acc (idx, val). acc + int idx * val) 0 (enumerate 0 histogram);
          threshold = otsu_loop histogram totalN sumN 0 0 0 (Fin 0) 0
      in jdiv (Fin (real_of_int (int threshold * 4 - 510))) (Fin 510))"

definition calculateOtsuThreshold :: "pixel list \<Rightarrow> js_error + jsnum" where
  "calculateOtsuThreshold data =
     (case build_histogram data (replicate 256 0) of
        Inl e \<Rightarrow> Inl e
      | Inr histogram \<Rightarrow> Inr (otsu_threshold_of_histogram histogram))"

section \<open>The index registry\<close>

text \<open>A decimal literal denotes the binary64 value nearest to it.\<close>

definition js_literal :: "real \<Rightarrow> jsnum" where
  "js_literal x = Fin (round_grid x)"

datatype index_key =
  INT_key | NRI | NGI | NBI | RGRI | ExR | ExG | ExB | ExGR | GRVI | VARI | GLI | GLA
  | MGRVI | RGBVI | VEG

record Algorithm =
  name :: string
  calculate :: "(real \<Rightarrow> real \<Rightarrow> real) \<Rightarrow> jsnum \<Rightarrow> jsnum \<Rightarrow> jsnum \<Rightarrow> jsnum"

fun ALGORITHMS :: "index_key \<Rightarrow> Algorithm" where
  "ALGORITHMS INT_key = \<lparr>name = ''Intensity'',
     calculate = (\<lambda>Math_pow r g b. jdiv (jadd (jadd r g) b) (Fin 3))\<rparr>"
| "ALGORITHMS NRI = \<lparr>name = ''Normalized Red Index'',
     calculate = (\<lambda>Math_pow r g b.
       let total = jadd (jadd r g) b
       in if jgt total (Fin 0) then jdiv r total else Fin 0)\<rparr>"
| "ALGORITHMS NGI = \<lparr>name = ''Normalized Green Index'',
     calculate = (\<lambda>Math_pow r g b.
       let total = jadd (jadd r g) b
       in if jgt total (Fin 0) then jdiv g total else Fin 0)\<rparr>"
| "ALGORITHMS NBI = \<lparr>name = ''Normalized Blue Index'',
     calculate = (\<lambda>Math_pow r g b.
       let total = jadd (jadd r g) b
       in if jgt total (Fin 0) then jdiv b total else Fin 0)\<rparr>"
| "ALGORITHMS RGRI = \<lparr>name = ''Red Green Ratio Index'',
     calculate = (\<lambda>Math_pow r g b. if jgt g (Fin 0) then jdiv r g else Fin 0)\<rparr>"
| "ALGORITHMS ExR = \<lparr>name = ''Excess Red Index'',
     calculate = (\<lambda>Math_pow r g b. jsub (jmul (js_literal (14 / 10)) r) g)\<rparr>"
| "ALGORITHMS ExG = \<lparr>name = ''Excess Green Index'',
     calculate = (\<lambda>Math_pow r g b. jsub (jsub (jmul (Fin 2) g) r) b)\<rparr>"
| "ALGORITHMS ExB = \<lparr>name = ''Excess Blue Index'',
     calculate = (\<lambda>Math_pow r g b. jsub (jmul (js_literal (14 / 10)) b) g)\<rparr>"
| "ALGORITHMS ExGR = \<lparr>name = ''Excess Green minus Red Index'',
     calculate = (\<lambda>Math_pow r g b.
       jsub (jsub (jsub (jmul (Fin 2) g) r) b) (jsub (jmul (js_literal (14 / 10)) r) g))\<rparr>"
| "ALGORITHMS GRVI = \<lparr>name = ''Green Red Vegetation Index'',
     calculate = (\<lambda>Math_pow r g b.
       let denom = jadd g r
       in if jgt denom (Fin 0) then jdiv (jsub g r) denom else Fin 0)\<rparr>"
| "ALGORITHMS VARI = \<lparr>name = ''Visible Atmospherically Resistant Index'',
     calculate = (\<lambda>Math_pow r g b.
       let denom = jsub (jadd g r) b
       in if jne denom (Fin 0) then jdiv (jsub g r) denom else Fin 0)\<rparr>"
| "ALGORITHMS GLI = \<lparr>name = ''Green Leaf Index'',
     calculate = (\<lambda>Math_pow r g b.
       let denom = jadd (jadd (jmul (Fin 2) g) r) b
       in if jne denom (Fin 0) then jdiv (jsub (jsub (jmul (Fin 2) g) r) b) denom else Fin 0)\<rparr>"
| "ALGORITHMS GLA = \<lparr>name = ''Green Leaf Algorithm'',
     calculate = (\<lambda>Math_pow r g b.
       let denom = jadd (jadd (jmul (Fin 2) g) r) b
       in if jne denom (Fin 0) then jdiv (jsub (jsub (jmul (Fin 2) g) r) b) denom else Fin 0)\<rparr>"
| "ALGORITHMS MGRVI = \<lparr>name = ''Modified Green Red Vegetation Index'',
     calculate = (\<lambda>Math_pow r g b.
       let g2 = jmul g g; r2 = jmul r r
       in jdiv (jsub g2 r2) (jadd g2 r2))\<rparr>"
| "ALGORITHMS RGBVI = \<lparr>name = ''Red Green Blue Vegetation Index'',
     calculate = (\<lambda>Math_pow r g b.
       let g2 = jmul g g; rb = jmul r b
       in jdiv (jsub g2 rb) (jadd g2 rb))\<rparr>"
| "ALGORITHMS VEG = \<lparr>name = ''Vegetativen'',
     calculate = (\<lambda>Math_pow r g b.
       let a = round_grid (667 / 1000)
       in jdiv g (jmul (jpow Math_pow r a) (jpow Math_pow b (round_grid (1 - a)))))\<rparr>"

section \<open>processImage\<close>

definition normalizeRGB :: "jsnum \<Rightarrow> jsnum \<Rightarrow> jsnum \<Rightarrow> jsnum \<times> jsnum \<times> jsnum" where
  "normalizeRGB r g b =
     (let total = jadd (jadd r g) b
      in if jeq total (Fin 0) then (Fin 0, Fin 0, Fin 0)
         else (jdiv r total, jdiv g total, jdiv b total))"

text \<open>
  A \<open>Record<string, number>\<close> is an association list in insertion order; assigning to a
  key replaces its value in place or appends the key. Reading a missing key gives
  \<open>undefined\<close>, which arithmetic turns into NaN.
\<close>

type_synonym js_record = "(index_key \<times> jsnum) list"

fun record_set :: "index_key \<Rightarrow> jsnum \<Rightarrow> js_record \<Rightarrow> js_record" where
  "record_set k v [] = [(k, v)]"
| "record_set k v ((k', v') # kvs) =
     (if k' = k then (k, v) # kvs else (k', v') # record_set k v kvs)"

definition record_num :: "js_record \<Rightarrow> index_key \<Rightarrow> jsnum" where
  "record_num m k = (case map_of m k of None \<Rightarrow> NaN | Some v \<Rightarrow> v)"

datatype ThresholdMethod = otsu | exg

record indices_pair =
  vegetation :: js_record
  whole :: js_record

record AnalysisResult =
  vegetationCoverage :: jsnum
  vegetationPixels :: nat
  totalPixels :: nat
  indices :: indices_pair

text \<open>
  The variables the pixel loop updates. The mask has one slot per pixel, so the index
  the loop writes to is always inside it.
\<close>

record accum =
  acc_vegetationPixels :: nat
  acc_vegetationMask :: "bool list"
  acc_vegetationIndices :: js_record
  acc_wholeIndices :: js_record

definition init_indices :: "(index_key \<times> bool) list \<Rightarrow> js_record" where
  "init_indices selectedIndices =
     fold (\<lambda>key m. if (case map_of selectedIndices key of Some True \<Rightarrow> True | _ \<Rightarrow> False)
                    then record_set key (Fin 0) m else m)
       (map fst selectedIndices) []"

definition byte_num :: "8 word \<Rightarrow> jsnum" where
  "byte_num w = Fin (real_of_int (chan w))"

definition pixel_exg :: "pixel \<Rightarrow> jsnum" where
  "pixel_exg p =
     (case normalizeRGB (byte_num (red p)) (byte_num (green p)) (byte_num (blue p)) of
        (normalizedR, normalizedG, normalizedB) \<Rightarrow>
          jsub (jsub (jmul (Fin 2) normalizedG) normalizedR) normalizedB)"

definition pixel_value :: "(real \<Rightarrow> real \<Rightarrow> real) \<Rightarrow> index_key \<Rightarrow> pixel \<Rightarrow> jsnum" where
  "pixel_value Math_pow key p =
     (case normalizeRGB (byte_num (red p)) (byte_num (green p)) (byte_num (blue p)) of
        (normalizedR, normalizedG, normalizedB) \<Rightarrow>
          calculate (ALGORITHMS key) Math_pow normalizedR normalizedG normalizedB)"

definition add_index :: "(real \<Rightarrow> real \<Rightarrow> real) \<Rightarrow> bool \<Rightarrow> pixel \<Rightarrow> index_key \<times> bool \<Rightarrow> accum \<Rightarrow> accum" where
  "add_index Math_pow isVegetation p entry s =
     (case entry of (key, isSelected) \<Rightarrow>
        if isSelected then
          (let v = pixel_value Math_pow key p;
               s1 = s\<lparr>acc_wholeIndices :=
                       record_set key (jadd (record_num (acc_wholeIndices s) key) v)
                         (acc_wholeIndices s)\<rparr>
           in if isVegetation
              then s1\<lparr>acc_vegetationIndices :=
                       record_set key (jadd (record_num (acc_vegetationIndices s1) key) v)
                         (acc_vegetationIndices s1)\<rparr>
              else s1)
        else s)"

definition pixel_step ::
  "(real \<Rightarrow> real \<Rightarrow> real) \<Rightarrow> jsnum \<Rightarrow> (index_key \<times> bool) list \<Rightarrow> pixel \<Rightarrow> nat \<Rightarrow> accum \<Rightarrow> accum" where
  "pixel_step Math_pow currentThreshold selectedIndices p pixelIndex s =
     (let isVegetation = jge (pixel_exg p) currentThreshold;
          s1 = s\<lparr>acc_vegetationMask := (acc_vegetationMask s)[pixelIndex := isVegetation]\<rparr>;
          s2 = (if isVegetation
                then s1\<lparr>acc_vegetationPixels := acc_vegetationPixels s1 + 1\<rparr> else s1)
      in fold (add_index Math_pow isVegetation p) selectedIndices s2)"

fun pixel_loop ::
  "(real \<Rightarrow> real \<Rightarrow> real) \<Rightarrow> jsnum \<Rightarrow> (index_key \<times> bool) list \<Rightarrow> pixel list \<Rightarrow> nat \<Rightarrow> accum \<Rightarrow> accum" where
  "pixel_loop Math_pow currentThreshold selectedIndices [] pixelIndex s = s"
| "pixel_loop Math_pow currentThreshold selectedIndices (p # data) pixelIndex s =
     pixel_loop Math_pow currentThreshold selectedIndices data (Suc pixelIndex)
       (pixel_step Math_pow currentThreshold selectedIndices p pixelIndex s)"

text \<open>The averaging step and the assembly of the result.\<close>

definition average_key ::
  "nat \<Rightarrow> nat \<Rightarrow> index_key \<Rightarrow> js_record \<times> js_record \<Rightarrow> js_record \<times> js_record" where
  "average_key totalN vegN key wv =
     (case wv of (wholeIndices, vegetationIndices) \<Rightarrow>
        (record_set key (jdiv (record_num wholeIndices key) (Fin (real totalN)))
           wholeIndices,
         record_set key
           (if vegN > 0
            then jdiv (record_num vegetationIndices key) (Fin (real vegN))
            else Fin 0)
           vegetationIndices))"

definition aggregate :: "nat \<Rightarrow> nat \<Rightarrow> js_record \<Rightarrow> js_record \<Rightarrow> AnalysisResult" where
  "aggregate totalN vegN wholeIndices vegetationIndices =
     (case fold (average_key totalN vegN) (map fst wholeIndices)
             (wholeIndices, vegetationIndices) of
        (wholeIndices', vegetationIndices') \<Rightarrow>
          \<lparr>vegetationCoverage =
             jmul (jdiv (Fin (real vegN)) (Fin (real totalN))) (Fin 100),
           vegetationPixels = vegN,
           totalPixels = totalN,
           indices = \<lparr>vegetation = vegetationIndices', whole = wholeIndices'\<rparr>\<rparr>)"

text \<open>
  The two canvases and their 2D contexts, which \<open>processImage\<close> checks before it reads
  the pixels: \<open>True\<close> when the object is there.
\<close>

record canvas_refs =
  canvas :: bool
  originalCanvas :: bool
  ctx :: bool
  originalCtx :: bool

text \<open>
  A loaded \<open>HTMLImageElement\<close>: its width, its height and its pixels, numbered row by
  row. \<open>drawImage\<close> copies them onto the canvas of the same size, and \<open>getImageData\<close>
  returns the \<open>sw \<sqdot> sh\<close> pixels of the canvas, or throws \<open>IndexSizeError\<close> when \<open>sw\<close> or
  \<open>sh\<close> is \<open>0\<close>; so does \<open>createImageData\<close>.
\<close>

record image =
  width :: nat
  height :: nat
  pixel_at :: "nat \<Rightarrow> pixel"

definition getImageData :: "image \<Rightarrow> nat \<Rightarrow> nat \<Rightarrow> js_error + pixel list" where
  "getImageData img sw sh =
     (if sw = 0 \<or> sh = 0 then Inl IndexSizeError
      else Inr (map (pixel_at img) [0..<sw * sh]))"

definition createImageData :: "nat \<Rightarrow> nat \<Rightarrow> js_error + unit" where
  "createImageData sw sh = (if sw = 0 \<or> sh = 0 then Inl IndexSizeError else Inr ())"

definition pixel_pass ::
  "(real \<Rightarrow> real \<Rightarrow> real) \<Rightarrow> jsnum \<Rightarrow> (index_key \<times> bool) list \<Rightarrow> nat \<Rightarrow> pixel list \<Rightarrow> accum" where
  "pixel_pass Math_pow currentThreshold selectedIndices totalN data =
     pixel_loop Math_pow currentThreshold selectedIndices data 0
       \<lparr>acc_vegetationPixels = 0,
        acc_vegetationMask = replicate totalN False,
        acc_vegetationIndices = init_indices selectedIndices,
        acc_wholeIndices = init_indices selectedIndices\<rparr>"

definition analyse_pixels ::
  "(real \<Rightarrow> real \<Rightarrow> real) \<Rightarrow> jsnum \<Rightarrow> (index_key \<times> bool) list \<Rightarrow> nat \<Rightarrow> pixel list \<Rightarrow> AnalysisResult" where
  "analyse_pixels Math_pow currentThreshold selectedIndices totalN data =
     (let s = pixel_pass Math_pow currentThreshold selectedIndices totalN data
      in aggregate totalN (acc_vegetationPixels s)
           (acc_wholeIndices s) (acc_vegetationIndices s))"

text \<open>
  \<open>processImage\<close> returns \<open>null\<close> without a canvas or a context; otherwise it sizes the
  canvases to the image, reads the pixels back, takes \<open>totalPixels\<close> as width times
  height, computes the threshold, creates the output buffer and runs the pixel loop
  and the averaging. An exception of a canvas call leaves the function.
\<close>

definition processImage ::
  "(real \<Rightarrow> real \<Rightarrow> real) \<Rightarrow> canvas_refs \<Rightarrow> ThresholdMethod \<Rightarrow> jsnum \<Rightarrow> (index_key \<times> bool) list \<Rightarrow> image
     \<Rightarrow> js_error + AnalysisResult option" where
  "processImage Math_pow refs thresholdMethod threshold selectedIndices img =
     (if \<not> canvas refs \<or> \<not> originalCanvas refs then Inr None
      else if \<not> ctx refs \<or> \<not> originalCtx refs then Inr None
      else
        (case getImageData img (width img) (height img) of
           Inl e \<Rightarrow> Inl e
         | Inr data \<Rightarrow>
             (let totalN = width img * height img
              in case (if thresholdMethod = otsu then calculateOtsuThreshold data
                       else Inr threshold) of
                   Inl e \<Rightarrow> Inl e
                 | Inr currentThreshold \<Rightarrow>
                     (case createImageData (width img) (height img) of
                        Inl e \<Rightarrow> Inl e
                      | Inr _ \<Rightarrow>
                          Inr (Some (analyse_pixels Math_pow currentThreshold selectedIndices
                                       totalN data))))))"

section \<open>downloadCSV\<close>

text \<open>Decimal digits of a count, as \<open>Array.prototype.join\<close> prints an integer.\<close>

definition digit_char :: "nat \<Rightarrow> char" where
  "digit_char d = char_of (48 + d)"

fun nat_digits :: "nat \<Rightarrow> string" where
  "nat_digits n =
     (if n < 10 then [digit_char n] else nat_digits (n div 10) @ [digit_char (n mod 10)])"

declare nat_digits.simps [simp del]

text \<open>
  \<open>Number.prototype.toFixed\<close>, after ECMAScript: NaN and the infinities print their
  names; otherwise the sign is split off, the magnitude \<open>x\<close> is replaced by the integer
  \<open>n\<close> nearest to \<open>x * 10 ^ d\<close> (the larger one at a tie), and the digits of \<open>n\<close>, padded
  with zeros to \<open>d + 1\<close> places, get a point before the last \<open>d\<close>. A magnitude of
  \<open>10 ^ 21\<close> or more is printed by \<open>Number::toString\<close>, whose shortest-digits output
  depends on the binary64 value: it is the parameter \<open>NumberToString\<close>.
\<close>

definition toFixed_digits :: "nat \<Rightarrow> real \<Rightarrow> string" where
  "toFixed_digits d x =
     (let n = nat \<lfloor>x * 10 ^ d + 1 / 2\<rfloor>;
          m = (if n = 0 then [CHR ''0''] else nat_digits n)
      in if d \<noteq> 0 then
           (let m' = (if length m \<le> d then replicate (d + 1 - length m) (CHR ''0'') @ m else m);
                k = length m'
            in take (k - d) m' @ [CHR ''.''] @ drop (k - d) m')
         else m)"

fun toFixed :: "(real \<Rightarrow> string) \<Rightarrow> nat \<Rightarrow> jsnum \<Rightarrow> string" where
  "toFixed NumberToString d NaN = ''NaN''"
| "toFixed NumberToString d PInf = ''Infinity''"
| "toFixed NumberToString d NInf = ''-Infinity''"
| "toFixed NumberToString d (Fin x) =
     (let s = (if x < 0 then [CHR ''-''] else []); x' = \<bar>x\<bar>
      in if x' \<ge> 10 ^ 21 then s @ NumberToString x' else s @ toFixed_digits d x')"

text \<open>\<open>Array.prototype.join\<close> on strings.\<close>

fun array_join :: "string \<Rightarrow> string list \<Rightarrow> string" where
  "array_join sep [] = []"
| "array_join sep [x] = x"
| "array_join sep (x # y # ys) = x @ sep @ array_join sep (y # ys)"

fun method_string :: "ThresholdMethod \<Rightarrow> string" where
  "method_string otsu = ''otsu''"
| "method_string exg = ''exg''"

record BatchRecord = AnalysisResult +
  filename :: string

text \<open>\<open>record[key].toFixed(4)\<close>: a missing key is \<open>undefined\<close>, and the call raises.\<close>

definition index_cell ::
  "(real \<Rightarrow> string) \<Rightarrow> js_record \<Rightarrow> index_key \<Rightarrow> js_error + string" where
  "index_cell NumberToString m key =
     (case map_of m key of
        None \<Rightarrow> Inl TypeError
      | Some v \<Rightarrow> Inr (toFixed NumberToString 4 v))"

text \<open>Mapping a function that may raise over an array: the first error ends the map.\<close>

fun map_raising :: "('a \<Rightarrow> js_error + 'b) \<Rightarrow> 'a list \<Rightarrow> js_error + 'b list" where
  "map_raising f [] = Inr []"
| "map_raising f (x # xs) =
     (case f x of
        Inl e \<Rightarrow> Inl e
      | Inr y \<Rightarrow> (case map_raising f xs of Inl e \<Rightarrow> Inl e | Inr ys \<Rightarrow> Inr (y # ys)))"

definition csv_headers :: "index_key list \<Rightarrow> string list" where
  "csv_headers selectedKeys =
     [''Filename'', ''Total Pixels'', ''Vegetation Pixels'', ''Vegetation Coverage (%)'',
      ''Threshold Method'', ''Threshold Value'']
     @ map (\<lambda>key. name (ALGORITHMS key) @ '' (Vegetation)'') selectedKeys
     @ map (\<lambda>key. name (ALGORITHMS key) @ '' (Whole)'') selectedKeys"

definition csv_row ::
  "(real \<Rightarrow> string) \<Rightarrow> ThresholdMethod \<Rightarrow> jsnum \<Rightarrow> index_key list \<Rightarrow> BatchRecord
     \<Rightarrow> js_error + string list" where
  "csv_row NumberToString thresholdMethod threshold selectedKeys result =
     (case map_raising (index_cell NumberToString (vegetation (indices result))) selectedKeys of
        Inl e \<Rightarrow> Inl e
      | Inr vegCells \<Rightarrow>
          (case map_raising (index_cell NumberToString (whole (indices result))) selectedKeys of
             Inl e \<Rightarrow> Inl e
           | Inr wholeCells \<Rightarrow>
               Inr ([filename result,
                     nat_digits (totalPixels result),
                     nat_digits (vegetationPixels result),
                     toFixed NumberToString 2 (vegetationCoverage result),
                     method_string thresholdMethod,
                     (if thresholdMethod = otsu then ''auto''
                      else toFixed NumberToString 3 threshold)]
                    @ vegCells @ wholeCells)))"

text \<open>The function returns the text it puts into the Blob.\<close>

definition downloadCSV ::
  "(real \<Rightarrow> string) \<Rightarrow> ThresholdMethod \<Rightarrow> jsnum \<Rightarrow> (index_key \<times> bool) list
     \<Rightarrow> BatchRecord list \<Rightarrow> js_error + string" where
  "downloadCSV NumberToString thresholdMethod threshold selectedIndices results =
     (let selectedKeys = map fst (filter (\<lambda>(_, isSelected). isSelected) selectedIndices);
          headers = csv_headers selectedKeys
      in case map_raising (csv_row NumberToString thresholdMethod threshold selectedKeys)
                results of
           Inl e \<Rightarrow> Inl e
         | Inr rows \<Rightarrow>
             Inr (array_join [CHR 0x0A]
                    (array_join '','' headers # map (\<lambda>row. array_join '','' row) rows)))"

section \<open>processBatchImages\<close>

text \<open>
  A file of the batch: its name and what \<open>loadImage\<close> makes of it, the decoded image
  or a rejection.
\<close>

record batch_file =
  file_name :: string
  loaded :: "js_error + image"

definition with_filename :: "string \<Rightarrow> AnalysisResult \<Rightarrow> BatchRecord" where
  "with_filename f r =
     \<lparr>vegetationCoverage = vegetationCoverage r, vegetationPixels = vegetationPixels r,
      totalPixels = totalPixels r, indices = indices r, filename = f\<rparr>"

text \<open>
  The \<open>for\<close> loop inside the \<open>try\<close> block. Beside the records it returns the names of
  the files it has called \<open>loadImage\<close> on, in the order of the calls.
\<close>

fun batch_loop ::
  "(real \<Rightarrow> real \<Rightarrow> real) \<Rightarrow> canvas_refs \<Rightarrow> ThresholdMethod \<Rightarrow> jsnum \<Rightarrow> (index_key \<times> bool) list
     \<Rightarrow> batch_file list \<Rightarrow> BatchRecord list \<Rightarrow> string list
     \<Rightarrow> (js_error + BatchRecord list) \<times> string list" where
  "batch_loop Math_pow refs thresholdMethod threshold selectedIndices [] results visited =
     (Inr results, visited)"
| "batch_loop Math_pow refs thresholdMethod threshold selectedIndices (file # batchFiles) results visited =
     (case loaded file of
        Inl e \<Rightarrow> (Inl e, visited @ [file_name file])
      | Inr img \<Rightarrow>
          (case processImage Math_pow refs thresholdMethod threshold selectedIndices img of
             Inl e \<Rightarrow> (Inl e, visited @ [file_name file])
           | Inr None \<Rightarrow>
               batch_loop Math_pow refs thresholdMethod threshold selectedIndices batchFiles
                 results (visited @ [file_name file])
           | Inr (Some result) \<Rightarrow>
               batch_loop Math_pow refs thresholdMethod threshold selectedIndices batchFiles
                 (results @ [with_filename (file_name file) result])
                 (visited @ [file_name file])))"

text \<open>What the user gets: the CSV text, or the alert of the \<open>catch\<close> block.\<close>

datatype batch_outcome = CsvDownloaded string | BatchAlert js_error

definition processBatchImages ::
  "(real \<Rightarrow> real \<Rightarrow> real) \<Rightarrow> (real \<Rightarrow> string) \<Rightarrow> canvas_refs \<Rightarrow> ThresholdMethod \<Rightarrow> jsnum
     \<Rightarrow> (index_key \<times> bool) list \<Rightarrow> batch_file list \<Rightarrow> batch_outcome \<times> string list" where
  "processBatchImages Math_pow NumberToString refs thresholdMethod threshold selectedIndices batchFiles =
     (case batch_loop Math_pow refs thresholdMethod threshold selectedIndices batchFiles [] [] of
        (Inl e, visited) \<Rightarrow> (BatchAlert e, visited)
      | (Inr results, visited) \<Rightarrow>
          (case downloadCSV NumberToString thresholdMethod threshold selectedIndices results of
             Inl e \<Rightarrow> (BatchAlert e, visited)
           | Inr csvContent \<Rightarrow> (CsvDownloaded csvContent, visited)))"

section \<open>The formulas of the specification\<close>

text \<open>
  The normalized triple and the Excess Green value of a pixel as the specification
  writes them: \<open>(R, G, B) / (R + G + B)\<close>, or \<open>(0, 0, 0)\<close> for a black pixel, and
  \<open>2g - r - b\<close> of that triple, each operation a binary64 operation.
\<close>

definition spec_normalized :: "pixel \<Rightarrow> jsnum \<times> jsnum \<times> jsnum" where
  "spec_normalized p =
     (let R = unat (red p); G = unat (green p); B = unat (blue p); S = R + G + B
      in if S = 0 then (Fin 0, Fin 0, Fin 0)
         else (jdiv (Fin (real R)) (Fin (real S)), jdiv (Fin (real G)) (Fin (real S)),
               jdiv (Fin (real B)) (Fin (real S))))"

definition spec_exg :: "pixel \<Rightarrow> jsnum" where
  "spec_exg p = (case spec_normalized p of (r, g, b) \<Rightarrow> jsub (jsub (jmul (Fin 2) g) r) b)"

definition spec_index :: "(real \<Rightarrow> real \<Rightarrow> real) \<Rightarrow> index_key \<Rightarrow> pixel \<Rightarrow> jsnum" where
  "spec_index Math_pow key p =
     (case spec_normalized p of (r, g, b) \<Rightarrow> calculate (ALGORITHMS key) Math_pow r g b)"

text \<open>The pixels the specification classifies as vegetation: those with ExG \<open>\<ge> \<tau>\<close>.\<close>

definition spec_vegetation :: "jsnum \<Rightarrow> pixel list \<Rightarrow> pixel list" where
  "spec_vegetation \<tau> data = filter (\<lambda>p. jge (spec_exg p) \<tau>) data"

text \<open>
  The running sum of a list of numbers, from \<open>0\<close> and in the order of the list, and
  the mean it gives.
\<close>

definition running_sum :: "jsnum list \<Rightarrow> jsnum" where
  "running_sum xs = foldl jadd (Fin 0) xs"

definition spec_mean :: "jsnum list \<Rightarrow> jsnum" where
  "spec_mean xs = jdiv (running_sum xs) (Fin (real (length xs)))"

text \<open>
  The result for one selected key: the whole-image mean, the vegetation mean (\<open>0\<close>
  without vegetation pixels) and the coverage, a division followed by a multiplication
  by \<open>100\<close>.
\<close>

definition spec_result :: "(real \<Rightarrow> real \<Rightarrow> real) \<Rightarrow> jsnum \<Rightarrow> index_key \<Rightarrow> pixel list \<Rightarrow> AnalysisResult \<Rightarrow> bool" where
  "spec_result Math_pow \<tau> key data res =
     (totalPixels res = length data
      \<and> vegetationPixels res = length (spec_vegetation \<tau> data)
      \<and> map_of (whole (indices res)) key = Some (spec_mean (map (spec_index Math_pow key) data))
      \<and> map_of (vegetation (indices res)) key =
          Some (if vegetationPixels res > 0
                then spec_mean (map (spec_index Math_pow key) (spec_vegetation \<tau> data)) else Fin 0)
      \<and> vegetationCoverage res =
          jmul (jdiv (Fin (real (vegetationPixels res))) (Fin (real (totalPixels res))))
            (Fin 100))"

text \<open>
  The CSV document as the specification lays it out, written as one text: the header
  line, then one line per record in batch order, every line after the first preceded
  by a newline and every cell after the first by a comma.
\<close>

definition spec_header :: "index_key list \<Rightarrow> string" where
  "spec_header keys =
     ''Filename,Total Pixels,Vegetation Pixels,Vegetation Coverage (%),Threshold Method,Threshold Value''
     @ concat (map (\<lambda>key. '','' @ name (ALGORITHMS key) @ '' (Vegetation)'') keys)
     @ concat (map (\<lambda>key. '','' @ name (ALGORITHMS key) @ '' (Whole)'') keys)"

definition spec_row ::
  "(real \<Rightarrow> string) \<Rightarrow> ThresholdMethod \<Rightarrow> jsnum \<Rightarrow> index_key list \<Rightarrow> BatchRecord \<Rightarrow> string" where
  "spec_row NumberToString method fixedValue keys r =
     filename r @ '','' @ nat_digits (totalPixels r) @ '','' @ nat_digits (vegetationPixels r)
     @ '','' @ toFixed NumberToString 2 (vegetationCoverage r)
     @ '','' @ method_string method
     @ '','' @ (if method = otsu then ''auto'' else toFixed NumberToString 3 fixedValue)
     @ concat (map (\<lambda>key. '','' @ toFixed NumberToString 4
                                   (record_num (vegetation (indices r)) key)) keys)
     @ concat (map (\<lambda>key. '','' @ toFixed NumberToString 4
                                   (record_num (whole (indices r)) key)) keys)"

definition spec_csv ::
  "(real \<Rightarrow> string) \<Rightarrow> ThresholdMethod \<Rightarrow> jsnum \<Rightarrow> index_key list \<Rightarrow> BatchRecord list
     \<Rightarrow> string" where
  "spec_csv NumberToString method fixedValue keys records =
     spec_header keys
     @ concat (map (\<lambda>r. [CHR 0x0A] @ spec_row NumberToString method fixedValue keys r) records)"

text \<open>
  A number printed with \<open>d\<close> decimals: an optional minus sign, at least one digit, a
  point, and exactly \<open>d\<close> digits.
\<close>

definition is_digit :: "char \<Rightarrow> bool" where
  "is_digit c = (c \<in> set ''0123456789'')"

definition fixed_format :: "nat \<Rightarrow> string \<Rightarrow> bool" where
  "fixed_format d s =
     (let body = (case s of [] \<Rightarrow> [] | c # cs \<Rightarrow> if c = CHR ''-'' then cs else s);
          k = length body
      in d + 2 \<le> k
         \<and> list_all is_digit (take (k - d - 1) body)
         \<and> body ! (k - d - 1) = CHR ''.''
         \<and> list_all is_digit (drop (k - d) body))"

text \<open>
  Whether a file of the batch fails, and with which error: \<open>loadImage\<close> rejects, or
  \<open>processImage\<close> raises.
\<close>

definition file_error ::
  "(real \<Rightarrow> real \<Rightarrow> real) \<Rightarrow> canvas_refs \<Rightarrow> ThresholdMethod \<Rightarrow> jsnum \<Rightarrow> (index_key \<times> bool) list \<Rightarrow> batch_file
     \<Rightarrow> js_error option" where
  "file_error Math_pow refs thresholdMethod threshold selectedIndices file =
     (case loaded file of
        Inl e \<Rightarrow> Some e
      | Inr img \<Rightarrow>
          (case processImage Math_pow refs thresholdMethod threshold selectedIndices img of
             Inl e \<Rightarrow> Some e
           | Inr _ \<Rightarrow> None))"

section \<open>Sample inputs\<close>

definition black :: pixel where
  "black = \<lparr>red = 0, green = 0, blue = 0, alpha = 255\<rparr>"

definition pure_green :: pixel where
  "pure_green = \<lparr>red = 0, green = 255, blue = 0, alpha = 255\<rparr>"

definition refs_ready :: canvas_refs where
  "refs_ready = \<lparr>canvas = True, originalCanvas = True, ctx = True, originalCtx = True\<rparr>"

text \<open>A stand-in for \<open>Number::toString\<close>; the samples never reach it.\<close>

definition sample_toString :: "real \<Rightarrow> string" where
  "sample_toString x = ''1e+21''"

text \<open>A stand-in for the engine's \<open>Math.pow\<close> on positive bases: the rounded power.\<close>

definition sample_pow :: "real \<Rightarrow> real \<Rightarrow> real" where
  "sample_pow x e = round_grid (x powr e)"

definition sample_selection :: "(index_key \<times> bool) list" where
  "sample_selection = [(NRI, False), (ExG, True)]"

definition sample_record :: BatchRecord where
  "sample_record =
     \<lparr>vegetationCoverage = Fin 50, vegetationPixels = 1, totalPixels = 2,
      indices = \<lparr>vegetation = [(ExG, Fin 2)], whole = [(ExG, Fin 1)]\<rparr>,
      filename = ''a.png''\<rparr>"

text \<open>An image of one row holding the given pixels, and an image without pixels.\<close>

definition row_image :: "pixel list \<Rightarrow> image" where
  "row_image data = \<lparr>width = length data, height = 1, pixel_at = (\<lambda>i. data ! i)\<rparr>"

definition empty_image :: image where
  "empty_image = \<lparr>width = 0, height = 3, pixel_at = (\<lambda>i. black)\<rparr>"

definition boundary_pixel :: pixel where
  "boundary_pixel = \<lparr>red = 1, green = 6, blue = 5, alpha = 255\<rparr>"

text \<open>A pixel with \<open>2G = R + B\<close>: its excess green is \<open>0\<close> over the reals.\<close>

definition balanced_pixel :: pixel where
  "balanced_pixel = \<lparr>red = 236, green = 172, blue = 108, alpha = 255\<rparr>"

text \<open>23 green pixels among 160.\<close>

definition sparse_green :: "pixel list" where
  "sparse_green = replicate 23 pure_green @ replicate 137 black"

text \<open>
  Four pixels in the histogram bins 3, 128, 128 and 253: the two candidate splits have
  the same variance over the reals and different ones in binary64.
\<close>

definition tie_pixels :: "pixel list" where
  "tie_pixels =
     [\<lparr>red = 255, green = 0, blue = 243, alpha = 255\<rparr>, black, black,
      \<lparr>red = 0, green = 251, blue = 0, alpha = 255\<rparr>]"

definition tie_histogram :: "int list" where
  "tie_histogram = (replicate 256 0)[3 := 1, 128 := 2, 253 := 1]"

definition sample_batch :: "batch_file list" where
  "sample_batch =
     [\<lparr>file_name = ''a.png'', loaded = Inr (row_image [pure_green, black])\<rparr>,
      \<lparr>file_name = ''b.png'', loaded = Inl LoadRejected\<rparr>,
      \<lparr>file_name = ''c.png'', loaded = Inr (row_image [black])\<rparr>]"

definition sample_batch_empty_image :: "batch_file list" where
  "sample_batch_empty_image =
     [\<lparr>file_name = ''a.png'', loaded = Inr (row_image [pure_green, black])\<rparr>,
      \<lparr>file_name = ''b.png'', loaded = Inr empty_image\<rparr>,
      \<lparr>file_name = ''c.png'', loaded = Inr (row_image [black])\<rparr>]"

section \<open>Rounding to binary64\<close>

lemma round_half_even_of_int: "round_half_even (real_of_int n) = n"
  by (simp add: round_half_even_def)

lemma round_half_even_lower: "real_of_int a \<le> q \<Longrightarrow> a \<le> round_half_even q"
proof -
  assume "real_of_int a \<le> q"
  then have "a \<le> \<lfloor>q\<rfloor>" by (simp add: le_floor_iff)
  then show ?thesis by (auto simp: round_half_even_def Let_def)
qed

lemma round_half_even_upper: "q \<le> real_of_int b \<Longrightarrow> round_half_even q \<le> b"
proof -
  assume q: "q \<le> real_of_int b"
  then have f: "\<lfloor>q\<rfloor> \<le> b" by (simp add: floor_le_iff)
  show ?thesis
  proof (cases "q = real_of_int \<lfloor>q\<rfloor>")
    case True
    then have "round_half_even q = \<lfloor>q\<rfloor>" by (simp add: round_half_even_def)
    then show ?thesis using f by simp
  next
    case False
    then have "real_of_int \<lfloor>q\<rfloor> < q" using of_int_floor_le [of q] by linarith
    then have "real_of_int \<lfloor>q\<rfloor> < real_of_int b" using q by linarith
    then have "\<lfloor>q\<rfloor> + 1 \<le> b" by simp
    then show ?thesis using f by (auto simp: round_half_even_def Let_def)
  qed
qed

lemma binade_le: "x \<noteq> 0 \<Longrightarrow> \<bar>x\<bar> \<le> 2 ^ k \<Longrightarrow> binade x \<le> int k"
proof -
  assume x: "x \<noteq> 0" and b: "\<bar>x\<bar> \<le> 2 ^ k"
  have "log 2 \<bar>x\<bar> \<le> log 2 (2 ^ k)" using x b by (subst log_le_cancel_iff) simp_all
  also have "\<dots> = real k" by simp
  finally have "\<lfloor>log 2 \<bar>x\<bar>\<rfloor> \<le> int k" by (simp add: floor_le_iff)
  then show ?thesis by (simp add: binade_def)
qed

lemma floor_log2_less: "x \<noteq> 0 \<Longrightarrow> \<bar>x\<bar> < 2 ^ k \<Longrightarrow> \<lfloor>log 2 \<bar>x\<bar>\<rfloor> < int k"
proof -
  assume x: "x \<noteq> 0" and b: "\<bar>x\<bar> < 2 ^ k"
  have "log 2 \<bar>x\<bar> < log 2 (2 ^ k)" using x b by (subst log_less_cancel_iff) simp_all
  also have "\<dots> = real k" by simp
  finally show ?thesis by (simp add: floor_less_iff)
qed

lemma round_grid_bounded: "\<bar>x\<bar> \<le> 2 ^ k \<Longrightarrow> \<bar>round_grid x\<bar> \<le> 2 ^ k"
proof (cases "x = 0")
  case True
  then show ?thesis by (simp add: round_grid_def)
next
  case False
  assume b: "\<bar>x\<bar> \<le> 2 ^ k"
  define e where "e = binade x"
  define u :: real where "u = 2 powi (e - 52)"
  define N :: int where "N = 2 ^ nat (int k + 52 - e)"
  have e: "e \<le> int k" using binade_le [OF False b] by (simp add: e_def)
  have u: "0 < u" by (simp add: u_def)
  have Nu: "real_of_int N * u = 2 ^ k"
  proof -
    have "real_of_int N = 2 powi (int k + 52 - e)" using e by (simp add: N_def power_int_def)
    then have "real_of_int N * u = 2 powi (int k + 52 - e) * 2 powi (e - 52)" by (simp add: u_def)
    also have "\<dots> = 2 powi ((int k + 52 - e) + (e - 52))"
      by (rule power_int_add [symmetric]) simp
    also have "(int k + 52 - e) + (e - 52) = int k" by simp
    finally show ?thesis by simp
  qed
  have q: "\<bar>x / u\<bar> \<le> real_of_int N"
  proof -
    have "\<bar>x / u\<bar> = \<bar>x\<bar> / u" using u by simp
    also have "\<dots> \<le> 2 ^ k / u" using b u by (simp add: divide_right_mono)
    also have "\<dots> = real_of_int N" using Nu u by (simp add: field_simps)
    finally show ?thesis .
  qed
  have "x / u \<le> real_of_int N \<and> - (x / u) \<le> real_of_int N"
    using q by (simp only: abs_le_iff)
  then have q1: "real_of_int (- N) \<le> x / u" and q2: "x / u \<le> real_of_int N"
    by simp_all
  have lo: "- N \<le> round_half_even (x / u)" by (rule round_half_even_lower [OF q1])
  have hi: "round_half_even (x / u) \<le> N" by (rule round_half_even_upper [OF q2])
  have "\<bar>real_of_int (round_half_even (x / u))\<bar> \<le> real_of_int N" using lo hi by simp
  then have "\<bar>real_of_int (round_half_even (x / u)) * u\<bar> \<le> real_of_int N * u"
    using u by (simp add: abs_mult mult_right_mono)
  then show ?thesis using False Nu by (simp add: round_grid_def Let_def e_def u_def)
qed

lemma round64_bounded:
  assumes "\<bar>x\<bar> \<le> 2 ^ k" and "k \<le> 1023"
  shows "\<exists>y. round64 x = Fin y \<and> \<bar>y\<bar> \<le> 2 ^ k"
proof -
  have y: "\<bar>round_grid x\<bar> \<le> 2 ^ k" by (rule round_grid_bounded [OF assms(1)])
  have "(2::real) ^ k \<le> 2 ^ 1023" using assms(2) by (intro power_increasing) simp_all
  also have "\<dots> < (2::real) ^ 1024" by (intro power_strict_increasing) simp_all
  finally have "\<bar>round_grid x\<bar> < 2 ^ 1024" using y by linarith
  then have "round64 x = Fin (round_grid x)" by (simp add: round64_def Let_def) linarith
  then show ?thesis using y by blast
qed

lemma floor_log2_eq:
  assumes "2 powi e \<le> \<bar>x\<bar>" and "\<bar>x\<bar> < 2 powi (e + 1)"
  shows "\<lfloor>log 2 \<bar>x\<bar>\<rfloor> = e"
proof -
  have p: "(2::real) powr real_of_int k = 2 powi k" for k by (simp add: powr_real_of_int')
  have "(0::real) < 2 powi e" by simp
  then have pos: "0 < \<bar>x\<bar>" using assms(1) by linarith
  have "real_of_int e \<le> log 2 \<bar>x\<bar> \<longleftrightarrow> 2 powr real_of_int e \<le> \<bar>x\<bar>"
    by (rule le_log_iff) (use pos in simp_all)
  then have a: "real_of_int e \<le> log 2 \<bar>x\<bar>" using assms(1) by (simp only: p)
  have "log 2 \<bar>x\<bar> < real_of_int (e + 1) \<longleftrightarrow> \<bar>x\<bar> < 2 powr real_of_int (e + 1)"
    by (rule log_less_iff) (use pos in simp_all)
  then have b: "log 2 \<bar>x\<bar> < real_of_int (e + 1)" using assms(2) by (simp only: p)
  show ?thesis using a b by (simp add: floor_eq_iff)
qed

lemma round64_eval:
  assumes "2 powi e \<le> \<bar>x\<bar>" and "\<bar>x\<bar> < 2 powi (e + 1)" and "- 1022 \<le> e" and "e \<le> 1022"
  shows "round64 x = Fin (real_of_int (round_half_even (x / 2 powi (e - 52))) * 2 powi (e - 52))"
proof -
  have "(0::real) < 2 powi e" by simp
  then have "0 < \<bar>x\<bar>" using assms(1) by linarith
  then have x: "x \<noteq> 0" by auto
  have be: "binade x = e" using floor_log2_eq [OF assms(1,2)] assms(3) by (simp add: binade_def)
  have g: "round_grid x = real_of_int (round_half_even (x / 2 powi (e - 52))) * 2 powi (e - 52)"
    using x be by (simp add: round_grid_def Let_def)
  have le: "\<bar>x\<bar> \<le> 2 powi (e + 1)" using assms(2) by simp
  have "(2::real) powi (e + 1) \<le> 2 powi 1023" using assms(4) by (intro power_int_increasing) simp_all
  then have "\<bar>x\<bar> \<le> 2 ^ 1023" using le by (simp add: power_int_def)
  then obtain y where "round64 x = Fin y" using round64_bounded [of x 1023] by auto
  then have "round64 x = Fin (round_grid x)"
    by (auto simp: round64_def Let_def split: if_splits)
  then show ?thesis using g by simp
qed

lemma round64_zero: "round64 0 = Fin 0"
  by (simp add: round64_def round_grid_def)

lemma round64_int:
  assumes "\<bar>n\<bar> < 2 ^ 53"
  shows "round64 (real_of_int n) = Fin (real_of_int n)"
proof (cases "n = 0")
  case True
  then show ?thesis by (simp add: round64_zero)
next
  case False
  define x where "x = real_of_int n"
  have x1: "1 \<le> \<bar>x\<bar>" using False by (simp add: x_def)
  have x2: "\<bar>x\<bar> < 2 ^ 53" using assms unfolding x_def by (metis of_int_abs of_int_less_numeral_power_cancel_iff)
  define e where "e = \<lfloor>log 2 \<bar>x\<bar>\<rfloor>"
  have e0: "0 \<le> e" using x1 by (simp add: e_def)
  have xne: "x \<noteq> 0" using x1 by auto
  then have e52: "e \<le> 52" using floor_log2_less [of x 53] x2 by (simp add: e_def)
  have be: "binade x = e" using e0 by (simp add: binade_def e_def)
  define j where "j = nat (52 - e)"
  have u: "(2::real) powi (e - 52) = 1 / 2 ^ j" using e52 by (simp add: j_def power_int_def field_simps)
  have q: "x / 2 powi (e - 52) = real_of_int (n * 2 ^ j)" by (simp add: u x_def)
  have r: "round_half_even (x / 2 powi (e - 52)) = n * 2 ^ j"
    by (simp only: q round_half_even_of_int)
  have "round_grid x = real_of_int (round_half_even (x / 2 powi (e - 52))) * 2 powi (e - 52)"
    using xne be by (simp add: round_grid_def Let_def)
  also have "\<dots> = real_of_int (n * 2 ^ j) * 2 powi (e - 52)" by (simp only: r)
  also have "\<dots> = real_of_int (n * 2 ^ j) * (1 / 2 ^ j)" by (simp only: u)
  also have "\<dots> = x" by (simp add: x_def)
  finally have "round_grid x = x" .
  moreover have "\<bar>x\<bar> \<le> 2 ^ 53" using x2 by simp
  then obtain y where "round64 x = Fin y" using round64_bounded [of x 53] by auto
  then have "round64 x = Fin (round_grid x)"
    by (auto simp: round64_def Let_def split: if_splits)
  ultimately show ?thesis by (simp add: x_def)
qed

lemma round64_nat: "n < 2 ^ 53 \<Longrightarrow> round64 (real n) = Fin (real n)"
  using round64_int [of "int n"] by simp

lemma round64_numeral [simp]: "numeral w < (2::int) ^ 53 \<Longrightarrow> round64 (numeral w) = Fin (numeral w)"
  using round64_int [of "numeral w"] by simp

lemma round64_one [simp]: "round64 1 = Fin 1"
  using round64_int [of 1] by simp

lemma round64_neg_numeral [simp]:
  "numeral w < (2::int) ^ 53 \<Longrightarrow> round64 (- numeral w) = Fin (- numeral w)"
  using round64_int [of "- numeral w"] by simp

lemma round64_neg_one [simp]: "round64 (- 1) = Fin (- 1)"
  using round64_int [of "- 1"] by simp

declare round64_zero [simp]

section \<open>The Otsu threshold\<close>

lemma chan_range: "0 \<le> chan w \<and> chan w \<le> 255"
proof -
  have "uint w < 2 ^ LENGTH(8)" by (rule uint_bounded)
  then show ?thesis by (simp add: chan_def)
qed

lemma otsu_bin_range: "0 \<le> otsu_bin p \<and> otsu_bin p \<le> 255"
proof -
  define k where "k = 2 * chan (green p) - chan (red p) - chan (blue p) + 510"
  have r: "0 \<le> chan (red p) \<and> chan (red p) \<le> 255"
    and g: "0 \<le> chan (green p) \<and> chan (green p) \<le> 255"
    and b: "0 \<le> chan (blue p) \<and> chan (blue p) \<le> 255"
    by (rule chan_range)+
  have k: "0 \<le> k \<and> k \<le> 1020" using r g b by (simp add: k_def)
  have eq: "otsu_bin p = \<lfloor>real_of_int k / 4 + 1 / 2\<rfloor>"
    by (simp add: otsu_bin_def Math_round_def Let_def k_def)
  have lo: "0 \<le> real_of_int k / 4 + 1 / 2" using k by simp
  have hi: "real_of_int k / 4 + 1 / 2 < 256" using k by simp
  have "0 \<le> \<lfloor>real_of_int k / 4 + 1 / 2\<rfloor>" using lo by simp
  moreover have "\<lfloor>real_of_int k / 4 + 1 / 2\<rfloor> < 256" using hi by (simp add: floor_less_iff)
  ultimately show ?thesis using eq by simp
qed

lemma build_histogram_total:
  "length h = 256 \<Longrightarrow> \<exists>h'. build_histogram data h = Inr h' \<and> length h' = 256"
proof (induction data arbitrary: h)
  case Nil
  then show ?case by simp
next
  case (Cons p data)
  have "0 \<le> otsu_bin p \<and> otsu_bin p < int (length h)"
    using otsu_bin_range [of p] Cons.prems by simp
  then show ?case using Cons.IH [of "h[nat (otsu_bin p) := h ! nat (otsu_bin p) + 1]"] Cons.prems
    by (simp add: Let_def)
qed

lemma otsu_loop_le:
  "threshold \<le> 255 \<Longrightarrow> otsu_loop h totalN sumN t sumB wB maxVar threshold \<le> 255"
proof (induction h totalN sumN t sumB wB maxVar threshold rule: otsu_loop.induct)
  case (1 h totalN sumN t sumB wB maxVar threshold)
  show ?case
    using 1 by (subst otsu_loop.simps) (auto simp: Let_def)
qed

lemma otsu_threshold_of_histogram_range:
  "\<exists>x. otsu_threshold_of_histogram h = Fin x \<and> - 1 \<le> x \<and> x \<le> 1"
proof -
  define thr where "thr = otsu_loop h (foldl (\<lambda>acc val. acc + val) 0 h)
     (foldl (\<lambda>acc (idx, val). acc + int idx * val) 0 (enumerate 0 h)) 0 0 0 (Fin 0) 0"
  define q where "q = real_of_int (int thr * 4 - 510) / 510"
  have "thr \<le> 255" unfolding thr_def by (rule otsu_loop_le) simp
  then have "\<bar>q\<bar> \<le> 2 ^ 0" by (simp add: q_def abs_le_iff)
  then obtain y where y: "round64 q = Fin y" "\<bar>y\<bar> \<le> 2 ^ 0"
    using round64_bounded [of q 0] by auto
  have "otsu_threshold_of_histogram h = round64 q"
    by (simp add: otsu_threshold_of_histogram_def Let_def thr_def q_def)
  then show ?thesis using y by (auto simp: abs_le_iff)
qed

lemma foldl_add_sum_list: "foldl (\<lambda>acc val. acc + val) a xs = a + sum_list (xs :: int list)"
  by (induction xs arbitrary: a) simp_all

lemma sum_list_single_bin:
  "k < m \<Longrightarrow> sum_list ((replicate m (0::int))[k := n]) = n"
  by (simp add: upd_conv_take_nth_drop sum_list_replicate)

lemma build_histogram_uniform:
  "length h = 256 \<Longrightarrow> \<forall>p \<in> set data. otsu_bin p = b \<Longrightarrow> data \<noteq> [] \<Longrightarrow>
   build_histogram data h = Inr (h[nat b := h ! nat b + int (length data)])"
proof (induction data arbitrary: h)
  case Nil
  then show ?case by simp
next
  case (Cons p data)
  have b: "otsu_bin p = b" using Cons.prems by simp
  have rng: "0 \<le> b \<and> b < 256" using otsu_bin_range [of p] b by simp
  let ?h = "h[nat b := h ! nat b + 1]"
  show ?case
  proof (cases "data = []")
    case True
    then show ?thesis using b rng Cons.prems by (simp add: Let_def)
  next
    case False
    have "build_histogram data ?h = Inr (?h[nat b := ?h ! nat b + int (length data)])"
      using Cons.IH [of ?h] Cons.prems False by simp
    moreover have "nat b < length h" using rng Cons.prems by (simp add: nat_less_iff)
    ultimately show ?thesis using b rng Cons.prems by (simp add: Let_def add.assoc)
  qed
qed

lemma otsu_loop_single_bin:
  "t \<le> k \<Longrightarrow> k < 256 \<Longrightarrow> \<forall>i. t \<le> i \<and> i < k \<longrightarrow> h ! i = 0 \<Longrightarrow> h ! k = n \<Longrightarrow> n \<noteq> 0 \<Longrightarrow>
   otsu_loop h n sumN t sumB 0 maxVar threshold = threshold"
proof (induction "k - t" arbitrary: t)
  case 0
  then have "t = k" by simp
  then show ?case using 0 by (subst otsu_loop.simps) (simp add: Let_def)
next
  case (Suc d)
  then have lt: "t < k" by simp
  then have z: "h ! t = 0" using Suc.prems by simp
  have "otsu_loop h n sumN (Suc t) sumB 0 maxVar threshold = threshold"
    using Suc.hyps(1) [of "Suc t"] Suc.hyps(2) Suc.prems lt by simp
  then show ?case using lt z Suc.prems by (subst otsu_loop.simps) (simp add: Let_def)
qed

lemma otsu_loop_empty:
  "\<forall>i < 256. h ! i = 0 \<Longrightarrow> otsu_loop h totalN sumN t sumB 0 maxVar threshold = threshold"
proof (induction "256 - t" arbitrary: t)
  case 0
  then show ?case by (subst otsu_loop.simps) simp
next
  case (Suc d)
  then have lt: "t < 256" by simp
  have "otsu_loop h totalN sumN (Suc t) sumB 0 maxVar threshold = threshold"
    using Suc.hyps(1) [of "Suc t"] Suc.hyps(2) Suc.prems by simp
  then show ?case using lt Suc.prems by (subst otsu_loop.simps) (simp add: Let_def)
qed

lemma otsu_uniform:
  assumes "data \<noteq> []" and "\<forall>p \<in> set data. otsu_bin p = b"
  shows "calculateOtsuThreshold data = Inr (Fin (- 1))"
proof -
  obtain p where p: "p \<in> set data" using assms(1) by (cases data) auto
  have rng: "0 \<le> b \<and> b < 256" using otsu_bin_range [of p] assms(2) p by auto
  define n where "n = int (length data)"
  define H where "H = (replicate 256 (0::int))[nat b := n]"
  have n: "n \<noteq> 0" using assms(1) by (simp add: n_def)
  have k: "nat b < 256" using rng by (simp add: nat_less_iff)
  have bh: "build_histogram data (replicate 256 0) = Inr H"
    using build_histogram_uniform [of "replicate 256 0" data b] assms k
    by (simp add: H_def n_def)
  have tot: "foldl (\<lambda>acc val. acc + val) 0 H = n"
    using sum_list_single_bin [of "nat b" 256 n] k by (simp add: foldl_add_sum_list H_def)
  have zeros: "\<forall>i. 0 \<le> i \<and> i < nat b \<longrightarrow> H ! i = 0"
    using k by (simp add: H_def)
  have at: "H ! nat b = n" using k by (simp add: H_def)
  have "otsu_loop H n sumN 0 0 0 (Fin 0) 0 = 0" for sumN
    using otsu_loop_single_bin [of 0 "nat b" H n sumN 0 "Fin 0" 0] k zeros at n by simp
  then have "otsu_threshold_of_histogram H = Fin (- 1)"
    by (simp add: otsu_threshold_of_histogram_def Let_def tot)
  then show ?thesis by (simp add: calculateOtsuThreshold_def bh)
qed

lemma otsu_empty: "calculateOtsuThreshold [] = Inr (Fin (- 1))"
proof -
  have "otsu_loop (replicate 256 0) totalN sumN 0 0 0 (Fin 0) 0 = 0" for totalN sumN
    by (rule otsu_loop_empty) simp
  then have "otsu_threshold_of_histogram (replicate 256 0) = Fin (- 1)"
    by (simp add: otsu_threshold_of_histogram_def Let_def)
  then show ?thesis by (simp add: calculateOtsuThreshold_def)
qed

lemma otsu_bin_black: "otsu_bin black = 128"
  by (simp add: otsu_bin_def Math_round_def black_def chan_def Let_def)

lemma calculateOtsuThreshold_returns: "\<exists>x. calculateOtsuThreshold data = Inr (Fin x)"
proof -
  obtain h where h: "build_histogram data (replicate 256 0) = Inr h"
    using build_histogram_total [of "replicate 256 0" data] by auto
  obtain x where x: "otsu_threshold_of_histogram h = Fin x"
    using otsu_threshold_of_histogram_range [of h] by auto
  have "calculateOtsuThreshold data = Inr (Fin x)"
    by (simp add: calculateOtsuThreshold_def h x)
  then show ?thesis by blast
qed

text \<open>
  C10: for every pixel the histogram bin \<open>round(((2G - R - B) + 510) / 4)\<close> lies in
  \<open>0..255\<close>, so building the histogram never leaves the 256 slots, and the threshold
  that \<open>calculateOtsuThreshold\<close> returns lies in \<open>[-1, 1]\<close>. The channels are bytes, so
  the claim's bound on them holds for every pixel.
\<close>

theorem otsu_bins_and_threshold_in_range:
  "(0 \<le> otsu_bin p \<and> otsu_bin p \<le> 255)
   \<and> (\<exists>h. build_histogram data (replicate 256 0) = Inr h \<and> length h = 256)
   \<and> (\<exists>x. calculateOtsuThreshold data = Inr (Fin x) \<and> - 1 \<le> x \<and> x \<le> 1)"
proof -
  obtain h where h: "build_histogram data (replicate 256 0) = Inr h" "length h = 256"
    using build_histogram_total [of "replicate 256 0" data] by auto
  obtain x where x: "otsu_threshold_of_histogram h = Fin x" "- 1 \<le> x" "x \<le> 1"
    using otsu_threshold_of_histogram_range [of h] by auto
  have "calculateOtsuThreshold data = Inr (Fin x)"
    by (simp add: calculateOtsuThreshold_def h x)
  then show ?thesis using otsu_bin_range [of p] h x by auto
qed

theorem otsu_bins_and_threshold_in_range_witness:
  "(0 \<le> otsu_bin black \<and> otsu_bin black \<le> 255)
   \<and> (\<exists>h. build_histogram [black, pure_green] (replicate 256 0) = Inr h \<and> length h = 256)
   \<and> (\<exists>x. calculateOtsuThreshold [black, pure_green] = Inr (Fin x) \<and> - 1 \<le> x \<and> x \<le> 1)"
  by (rule otsu_bins_and_threshold_in_range)

text \<open>
  C3 fails as stated: on the empty buffer the winning bin index keeps its initial value
  \<open>0\<close>, and the function returns it mapped to the ExG scale, \<open>(4 * 0 - 510) / 510 = -1\<close>,
  not \<open>0\<close>.
\<close>

theorem otsu_empty_not_zero: "calculateOtsuThreshold [] \<noteq> Inr (Fin 0)"
  by (simp add: otsu_empty)

text \<open>
  C3, amended: \<open>calculateOtsuThreshold\<close> returns a finite number on every pixel buffer,
  and on the empty buffer it returns \<open>-1\<close>.
\<close>

theorem otsu_never_fails_empty_gives_minus_one:
  "(\<exists>x. calculateOtsuThreshold data = Inr (Fin x))
   \<and> calculateOtsuThreshold [] = Inr (Fin (- 1))"
proof -
  obtain h where h: "build_histogram data (replicate 256 0) = Inr h"
    using build_histogram_total [of "replicate 256 0" data] by auto
  obtain x where x: "otsu_threshold_of_histogram h = Fin x"
    using otsu_threshold_of_histogram_range [of h] by auto
  have "calculateOtsuThreshold data = Inr (Fin x)"
    by (simp add: calculateOtsuThreshold_def h x)
  then show ?thesis using otsu_empty by blast
qed

theorem otsu_never_fails_empty_gives_minus_one_witness:
  "(\<exists>x. calculateOtsuThreshold [pure_green, black] = Inr (Fin x))
   \<and> calculateOtsuThreshold [] = Inr (Fin (- 1))"
  by (rule otsu_never_fails_empty_gives_minus_one)

text \<open>
  C4 fails as stated: an image of one black pixel is uniform with bin \<open>128\<close>, for which
  the claim gives \<open>(4 * 128 - 510) / 510\<close>, while the function returns \<open>-1\<close>.
\<close>

theorem otsu_uniform_black_not_bin_value:
  "otsu_bin black = 128
   \<and> calculateOtsuThreshold [black] \<noteq> Inr (Fin ((4 * 128 - 510) / 510))"
proof -
  have "calculateOtsuThreshold [black] = Inr (Fin (- 1))"
    by (rule otsu_uniform [where b = 128]) (simp_all add: otsu_bin_black)
  then show ?thesis by (simp add: otsu_bin_black)
qed

text \<open>
  C4, amended: for every non-empty image whose pixels all fall into one histogram bin,
  \<open>calculateOtsuThreshold\<close> returns \<open>-1\<close>, which is \<open>(4 * 0 - 510) / 510\<close>, whatever the bin:
  at the populated bin the foreground weight is \<open>0\<close> and the scan stops before any
  candidate has been recorded.
\<close>

theorem otsu_uniform_gives_minus_one:
  "data \<noteq> [] \<Longrightarrow> \<forall>p \<in> set data. otsu_bin p = bin \<Longrightarrow>
   calculateOtsuThreshold data = Inr (Fin (- 1))"
  using otsu_uniform [of data bin] by simp

theorem otsu_uniform_gives_minus_one_witness:
  "[pure_green, pure_green] \<noteq> [] \<and> otsu_bin pure_green = 255
   \<and> calculateOtsuThreshold [pure_green, pure_green] = Inr (Fin (- 1))"
proof -
  have b: "otsu_bin pure_green = 255"
    by (simp add: otsu_bin_def Math_round_def pure_green_def chan_def Let_def)
  have h: "\<forall>p \<in> set [pure_green, pure_green]. otsu_bin p = 255" using b by simp
  have n: "[pure_green, pure_green] \<noteq> []" by simp
  show ?thesis using otsu_uniform_gives_minus_one [OF n h] b by simp
qed

subsection \<open>A tie that rounding decides\<close>

text \<open>
  With one pixel in bin 3, two in bin 128 and one in bin 253, the splits after bin 3 and
  after bin 128 have the same between-class variance \<open>250000 / 3\<close> over the reals, and
  the strict comparison would keep bin 3. In binary64 the first rounds to
  \<open>83333.33333333331\<close> and the second to \<open>83333.33333333336\<close>, so the scan moves on
  to bin 128 and returns \<open>(128 * 4 - 510) / 510\<close>.
\<close>

lemma otsu_bin_low: "otsu_bin \<lparr>red = 255, green = 0, blue = 243, alpha = 255\<rparr> = 3"
  by (simp add: otsu_bin_def Math_round_def chan_def)

lemma otsu_bin_high: "otsu_bin \<lparr>red = 0, green = 251, blue = 0, alpha = 255\<rparr> = 253"
  by (simp add: otsu_bin_def Math_round_def chan_def)

lemma tie_build: "build_histogram tie_pixels (replicate 256 0) = Inr tie_histogram"
  unfolding tie_pixels_def tie_histogram_def
  by (simp add: otsu_bin_low otsu_bin_high otsu_bin_black Let_def)

lemma tie_length: "length tie_histogram = 256"
  by (simp add: tie_histogram_def)

lemma tie_nth:
  "i < 256 \<Longrightarrow> tie_histogram ! i = (if i = 253 then 1 else if i = 128 then 2 else if i = 3 then 1 else 0)"
  by (simp add: tie_histogram_def nth_list_update)

lemma sum_list_update_int:
  "k < length xs \<Longrightarrow> sum_list (xs[k := v]) = sum_list xs + (v - xs ! k)" for xs :: "int list"
proof (induction xs arbitrary: k)
  case Nil
  then show ?case by simp
next
  case (Cons x xs)
  then show ?case by (cases k) simp_all
qed

lemma tie_total: "foldl (\<lambda>acc val. acc + val) 0 tie_histogram = 4"
  by (simp add: foldl_add_sum_list tie_histogram_def sum_list_update_int nth_list_update
      sum_list_replicate)

lemma foldl_weighted:
  "foldl (\<lambda>acc (idx, val). acc + int idx * val) a (enumerate n xs)
   = a + (\<Sum>i < length xs. int (n + i) * xs ! i)"
proof (induction xs arbitrary: a n)
  case Nil
  then show ?case by simp
next
  case (Cons x xs)
  have "(\<Sum>i < Suc (length xs). int (n + i) * (x # xs) ! i)
        = int n * x + (\<Sum>i < length xs. int (Suc n + i) * xs ! i)"
    by (simp add: sum.lessThan_Suc_shift add.left_commute del: sum.lessThan_Suc)
  then show ?case using Cons.IH [of "a + int n * x" "Suc n"] by simp
qed


lemma weighted_update:
  "k < length xs \<Longrightarrow>
   (\<Sum>i < length xs. int i * (xs[k := v]) ! i)
   = (\<Sum>i < length xs. int i * xs ! i) + int k * (v - xs ! k)" for xs :: "int list"
proof -
  assume k: "k < length xs"
  have fin: "finite {..<length xs}" and mem: "k \<in> {..<length xs}" using k by simp_all
  have a: "(\<Sum>i < length xs. int i * (xs[k := v]) ! i)
           = int k * v + (\<Sum>i \<in> {..<length xs} - {k}. int i * (xs[k := v]) ! i)"
    using k by (subst sum.remove [OF fin mem]) simp
  have b: "(\<Sum>i < length xs. int i * xs ! i)
           = int k * xs ! k + (\<Sum>i \<in> {..<length xs} - {k}. int i * xs ! i)"
    by (subst sum.remove [OF fin mem]) simp
  have c: "(\<Sum>i \<in> {..<length xs} - {k}. int i * (xs[k := v]) ! i)
           = (\<Sum>i \<in> {..<length xs} - {k}. int i * xs ! i)"
    by (rule sum.cong) simp_all
  show ?thesis by (simp only: a b c) (simp add: algebra_simps)
qed

lemma tie_sum:
  "foldl (\<lambda>acc (idx, val). acc + int idx * val) 0 (enumerate 0 tie_histogram) = 512"
proof -
  let ?h0 = "replicate 256 (0::int)"
  let ?h1 = "?h0[3 := 1]"
  let ?h2 = "?h1[128 := 2]"
  have w0: "(\<Sum>i < 256. int i * ?h0 ! i) = 0" by simp
  have w1: "(\<Sum>i < 256. int i * ?h1 ! i) = 3"
    using weighted_update [of 3 ?h0 1] w0 by simp
  have w2: "(\<Sum>i < 256. int i * ?h2 ! i) = 259"
    using weighted_update [of 128 ?h1 2] w1 by simp
  have w3: "(\<Sum>i < 256. int i * (?h2[253 := 1]) ! i) = 512"
    using weighted_update [of 253 ?h2 1] w2 by simp
  show ?thesis
    using w3 by (simp add: foldl_weighted tie_histogram_def)
qed


lemma otsu_loop_skip_empty:
  "t \<le> k \<Longrightarrow> k \<le> 256 \<Longrightarrow> \<forall>i. t \<le> i \<and> i < k \<longrightarrow> h ! i = 0 \<Longrightarrow>
   otsu_loop h totalN sumN t sumB 0 maxVar threshold
   = otsu_loop h totalN sumN k sumB 0 maxVar threshold"
proof (induction "k - t" arbitrary: t)
  case 0
  then show ?case by simp
next
  case (Suc d)
  then have lt: "t < k" by simp
  then have z: "h ! t = 0" using Suc.prems by simp
  have "otsu_loop h totalN sumN (Suc t) sumB 0 maxVar threshold
        = otsu_loop h totalN sumN k sumB 0 maxVar threshold"
    using Suc.hyps(1) [of "Suc t"] Suc.hyps(2) Suc.prems lt by simp
  then show ?case
    using lt z Suc.prems by (subst otsu_loop.simps) (simp add: Let_def)
qed

lemma otsu_loop_skip_zero:
  assumes "t \<le> k" and "k \<le> 256" and "\<forall>i. t \<le> i \<and> i < k \<longrightarrow> h ! i = 0"
    and "wB \<noteq> 0" and "totalN - wB \<noteq> 0"
    and "\<not> jgt (jmul (jmul (Fin (real_of_int wB)) (Fin (real_of_int (totalN - wB))))
                 (Math_pow_2 (jsub (jdiv (Fin (real_of_int sumB)) (Fin (real_of_int wB)))
                    (jdiv (Fin (real_of_int (sumN - sumB))) (Fin (real_of_int (totalN - wB)))))))
           maxVar"
  shows "otsu_loop h totalN sumN t sumB wB maxVar threshold
         = otsu_loop h totalN sumN k sumB wB maxVar threshold"
  using assms(1,3)
proof (induction "k - t" arbitrary: t)
  case 0
  then show ?case by simp
next
  case (Suc d)
  then have lt: "t < k" by simp
  then have z: "h ! t = 0" using Suc.prems by simp
  have t: "t < 256" using lt assms(2) by simp
  have "otsu_loop h totalN sumN (Suc t) sumB wB maxVar threshold
        = otsu_loop h totalN sumN k sumB wB maxVar threshold"
    using Suc.hyps(1) [of "Suc t"] Suc.hyps(2) Suc.prems lt by simp
  then show ?case
    using t z assms(4,5,6)
    by (subst otsu_loop.simps) (simp add: Let_def del: jdiv.simps jmul.simps)
qed

lemma otsu_loop_step:
  assumes "t < 256" and "h ! t = n" and "wB + n \<noteq> 0" and "totalN - (wB + n) \<noteq> 0"
    and "jmul (jmul (Fin (real_of_int (wB + n))) (Fin (real_of_int (totalN - (wB + n)))))
           (Math_pow_2 (jsub (jdiv (Fin (real_of_int (sumB + int t * n))) (Fin (real_of_int (wB + n))))
              (jdiv (Fin (real_of_int (sumN - (sumB + int t * n))))
                 (Fin (real_of_int (totalN - (wB + n))))))) = v"
  shows "otsu_loop h totalN sumN t sumB wB maxVar threshold
         = (if jgt v maxVar then otsu_loop h totalN sumN (Suc t) (sumB + int t * n) (wB + n) v t
            else otsu_loop h totalN sumN (Suc t) (sumB + int t * n) (wB + n) maxVar threshold)"
  using assms(1,3,4) unfolding assms(5) [symmetric] assms(2) [symmetric]
  by (subst otsu_loop.simps) (simp add: Let_def del: jdiv.simps jmul.simps)

lemma tie_variance_low:
  "jmul (jmul (Fin 1) (Fin 3)) (Math_pow_2 (jsub (jdiv (Fin 3) (Fin 1)) (jdiv (Fin 509) (Fin 3))))
   = Fin (1431655765333333 / 2 ^ 34)"
proof -
  have a: "jdiv (Fin 3) (Fin 1) = Fin 3" by simp
  have b: "jdiv (Fin 509) (Fin 3) = Fin (5969615131071829 / 2 ^ 45)"
    by (simp, subst round64_eval [where e = 7])
      (simp_all add: power_int_def power_one_over round_half_even_def Let_def)
  have c: "jsub (Fin 3) (Fin (5969615131071829 / 2 ^ 45)) = Fin (- 5864062014805333 / 2 ^ 45)"
    by (simp add: jsub_def, subst round64_eval [where e = 7])
      (simp_all add: power_int_def power_one_over round_half_even_def Let_def)
  have d: "Math_pow_2 (Fin (- 5864062014805333 / 2 ^ 45)) = Fin (3817748707555555 / 2 ^ 37)"
    by (simp add: Math_pow_2_def, subst round64_eval [where e = 14])
      (simp_all add: power_int_def power_one_over round_half_even_def Let_def)
  have e: "jmul (Fin 1) (Fin 3) = Fin 3" by simp
  have f: "jmul (Fin 3) (Fin (3817748707555555 / 2 ^ 37)) = Fin (1431655765333333 / 2 ^ 34)"
    by (simp, subst round64_eval [where e = 16])
      (simp_all add: power_int_def power_one_over round_half_even_def Let_def)
  show ?thesis by (simp only: a b c d e f)
qed

lemma tie_variance_high:
  "jmul (jmul (Fin 3) (Fin 1)) (Math_pow_2 (jsub (jdiv (Fin 259) (Fin 3)) (jdiv (Fin 253) (Fin 1))))
   = Fin (5726623061333335 / 2 ^ 36)"
proof -
  have a: "jdiv (Fin 259) (Fin 3) = Fin (6075168247338325 / 2 ^ 46)"
    by (simp, subst round64_eval [where e = 6])
      (simp_all add: power_int_def power_one_over round_half_even_def Let_def)
  have b: "jdiv (Fin 253) (Fin 1) = Fin 253" by simp
  have c: "jsub (Fin (6075168247338325 / 2 ^ 46)) (Fin 253) = Fin (- 2932031007402667 / 2 ^ 44)"
    by (simp add: jsub_def, subst round64_eval [where e = 7])
      (simp_all add: power_int_def power_one_over round_half_even_def Let_def)
  have d: "Math_pow_2 (Fin (- 2932031007402667 / 2 ^ 44)) = Fin (7635497415111113 / 2 ^ 38)"
    by (simp add: Math_pow_2_def, subst round64_eval [where e = 14])
      (simp_all add: power_int_def power_one_over round_half_even_def Let_def)
  have e: "jmul (Fin 3) (Fin 1) = Fin 3" by simp
  have f: "jmul (Fin 3) (Fin (7635497415111113 / 2 ^ 38)) = Fin (5726623061333335 / 2 ^ 36)"
    by (simp, subst round64_eval [where e = 16])
      (simp_all add: power_int_def power_one_over round_half_even_def Let_def)
  show ?thesis by (simp only: a b c d e f)
qed


lemma tie_loop: "otsu_loop tie_histogram 4 512 0 0 0 (Fin 0) 0 = 128"
proof -
  let ?v = "Fin (1431655765333333 / 2 ^ 34)"
  let ?w = "Fin (5726623061333335 / 2 ^ 36)"
  have s1: "otsu_loop tie_histogram 4 512 0 0 0 (Fin 0) 0
            = otsu_loop tie_histogram 4 512 3 0 0 (Fin 0) 0"
    by (rule otsu_loop_skip_empty) (simp_all add: tie_nth)
  have s2: "otsu_loop tie_histogram 4 512 3 0 0 (Fin 0) 0
            = otsu_loop tie_histogram 4 512 4 3 1 ?v 3"
    using otsu_loop_step [of 3 tie_histogram 1 0 4 0 512 ?v "Fin 0" 0] tie_variance_low
    by (simp add: tie_nth del: jdiv.simps jmul.simps)
  have s3: "otsu_loop tie_histogram 4 512 4 3 1 ?v 3
            = otsu_loop tie_histogram 4 512 128 3 1 ?v 3"
    using otsu_loop_skip_zero [of 4 128 tie_histogram 1 4 3 512 ?v 3] tie_variance_low
    by (simp add: tie_nth del: jdiv.simps jmul.simps)
  have s4: "otsu_loop tie_histogram 4 512 128 3 1 ?v 3
            = otsu_loop tie_histogram 4 512 129 259 3 ?w 128"
    using otsu_loop_step [of 128 tie_histogram 2 1 4 3 512 ?w ?v 3] tie_variance_high
    by (simp add: tie_nth del: jdiv.simps jmul.simps)
  have s5: "otsu_loop tie_histogram 4 512 129 259 3 ?w 128
            = otsu_loop tie_histogram 4 512 253 259 3 ?w 128"
    using otsu_loop_skip_zero [of 129 253 tie_histogram 3 4 259 512 ?w 128] tie_variance_high
    by (simp add: tie_nth del: jdiv.simps jmul.simps)
  have s6: "otsu_loop tie_histogram 4 512 253 259 3 ?w 128 = 128"
    by (subst otsu_loop.simps) (simp add: tie_nth Let_def)
  show ?thesis by (simp only: s1 s2 s3 s4 s5 s6)
qed

lemma tie_threshold: "round64 (2 / 510) = Fin (282578800148737 / 2 ^ 56)"
  by (subst round64_eval [where e = "- 8"])
    (simp_all add: power_int_def power_one_over round_half_even_def Let_def)

lemma otsu_tie_decided_by_rounding:
  "calculateOtsuThreshold tie_pixels = Inr (Fin (282578800148737 / 2 ^ 56))"
  using tie_threshold
  by (simp add: calculateOtsuThreshold_def tie_build otsu_threshold_of_histogram_def Let_def
      tie_total tie_sum tie_loop)

section \<open>The classifier and the means\<close>

lemma byte_num_unat: "byte_num w = Fin (real (unat w))"
  by (simp add: byte_num_def chan_def)

lemma unat_byte: "unat (w :: 8 word) < 256"
proof -
  have "unat w < 2 ^ LENGTH(8)" by (rule unsigned_less)
  then show ?thesis by simp
qed

lemma byte_sum:
  "jadd (jadd (byte_num a) (byte_num b)) (byte_num c) = Fin (real (unat a + unat b + unat c))"
proof -
  have ab: "unat a + unat b < 2 ^ 53" and abc: "unat a + unat b + unat c < 2 ^ 53"
    using unat_byte [of a] unat_byte [of b] unat_byte [of c] by simp_all
  have "jadd (byte_num a) (byte_num b) = Fin (real (unat a + unat b))"
    using round64_nat [OF ab] by (simp add: byte_num_unat)
  then show ?thesis using round64_nat [OF abc] by (simp add: byte_num_unat)
qed

lemma normalizeRGB_spec:
  "normalizeRGB (byte_num (red p)) (byte_num (green p)) (byte_num (blue p)) = spec_normalized p"
proof -
  define S where "S = unat (red p) + unat (green p) + unat (blue p)"
  have total: "jadd (jadd (byte_num (red p)) (byte_num (green p))) (byte_num (blue p)) = Fin (real S)"
    by (simp only: byte_sum S_def)
  have n: "normalizeRGB (byte_num (red p)) (byte_num (green p)) (byte_num (blue p)) =
     (if jeq (Fin (real S)) (Fin 0) then (Fin 0, Fin 0, Fin 0)
      else (jdiv (byte_num (red p)) (Fin (real S)), jdiv (byte_num (green p)) (Fin (real S)),
            jdiv (byte_num (blue p)) (Fin (real S))))"
    by (simp only: normalizeRGB_def Let_def total)
  have s: "spec_normalized p =
     (if S = 0 then (Fin 0, Fin 0, Fin 0)
      else (jdiv (byte_num (red p)) (Fin (real S)), jdiv (byte_num (green p)) (Fin (real S)),
            jdiv (byte_num (blue p)) (Fin (real S))))"
    by (simp only: spec_normalized_def Let_def S_def byte_num_unat)
  show ?thesis by (simp only: n s) simp
qed

lemma pixel_exg_spec: "pixel_exg p = spec_exg p"
  by (simp add: pixel_exg_def spec_exg_def normalizeRGB_spec)

lemma pixel_value_spec: "pixel_value Math_pow key p = spec_index Math_pow key p"
  by (simp add: pixel_value_def spec_index_def normalizeRGB_spec)

lemma jge_Fin: "jge (Fin x) (Fin t) = (x \<ge> t)"
  by (auto simp: jge_def)

lemma spec_exg_zero:
  "red p = 0 \<Longrightarrow> green p = 0 \<Longrightarrow> blue p = 0 \<Longrightarrow> spec_exg p = Fin 0"
  by (simp add: spec_exg_def spec_normalized_def jsub_def)

lemma spec_exg_black: "spec_exg black = Fin 0"
  by (rule spec_exg_zero) (simp_all add: black_def)

lemma spec_normalized_pure_green: "spec_normalized pure_green = (Fin 0, Fin 1, Fin 0)"
  by (simp add: spec_normalized_def pure_green_def)

lemma spec_exg_pure_green: "spec_exg pure_green = Fin 2"
  by (simp add: spec_exg_def spec_normalized_pure_green jsub_def)

subsection \<open>Records\<close>

lemma map_of_record_set: "map_of (record_set k v m) = (map_of m)(k \<mapsto> v)"
  by (induction m) (auto simp: fun_eq_iff)

lemma record_num_record_set:
  "record_num (record_set k v m) k' = (if k' = k then v else record_num m k')"
  by (simp add: record_num_def map_of_record_set)

lemma keys_record_set:
  "set (map fst (record_set k v m)) = insert k (set (map fst m))"
proof -
  have "fst ` set (record_set k v m) = dom (map_of (record_set k v m))"
    by (simp add: dom_map_of_conv_image_fst)
  also have "\<dots> = insert k (dom (map_of m))" by (simp add: map_of_record_set)
  also have "\<dots> = insert k (fst ` set m)" by (simp add: dom_map_of_conv_image_fst)
  finally show ?thesis by simp
qed

lemma distinct_record_set:
  "distinct (map fst m) \<Longrightarrow> distinct (map fst (record_set k v m))"
proof (induction m)
  case Nil
  then show ?case by simp
next
  case (Cons kv m)
  obtain k' v' where kv: "kv = (k', v')" by (cases kv)
  show ?case
  proof (cases "k' = k")
    case True
    then show ?thesis using Cons.prems kv by simp
  next
    case False
    have "k' \<notin> set (map fst (record_set k v m))"
      using Cons.prems kv False by (simp only: keys_record_set) auto
    then show ?thesis using Cons kv False by simp
  qed
qed

subsection \<open>One pixel\<close>

lemma add_index_counts:
  "acc_vegetationPixels (add_index Math_pow v p e s) = acc_vegetationPixels s"
  "acc_vegetationMask (add_index Math_pow v p e s) = acc_vegetationMask s"
  by (cases e; simp add: add_index_def Let_def)+

lemma fold_add_index_counts:
  "acc_vegetationPixels (fold (add_index Math_pow v p) sel s) = acc_vegetationPixels s
   \<and> acc_vegetationMask (fold (add_index Math_pow v p) sel s) = acc_vegetationMask s"
  by (induction sel arbitrary: s) (simp_all add: add_index_counts)

lemma add_index_whole:
  "map_of (acc_wholeIndices (add_index Math_pow v p (k0, b0) s)) k =
     (if b0 \<and> k = k0 then Some (jadd (record_num (acc_wholeIndices s) k) (pixel_value Math_pow k p))
      else map_of (acc_wholeIndices s) k)"
  by (simp add: add_index_def Let_def map_of_record_set)

lemma add_index_veg:
  "map_of (acc_vegetationIndices (add_index Math_pow v p (k0, b0) s)) k =
     (if b0 \<and> v \<and> k = k0
      then Some (jadd (record_num (acc_vegetationIndices s) k) (pixel_value Math_pow k p))
      else map_of (acc_vegetationIndices s) k)"
  by (simp add: add_index_def Let_def map_of_record_set)

lemma fold_add_index_whole:
  "distinct (map fst sel) \<Longrightarrow>
   map_of (acc_wholeIndices (fold (add_index Math_pow v p) sel s)) k =
     (if (k, True) \<in> set sel
      then Some (jadd (record_num (acc_wholeIndices s) k) (pixel_value Math_pow k p))
      else map_of (acc_wholeIndices s) k)"
proof (induction sel arbitrary: s)
  case Nil
  then show ?case by simp
next
  case (Cons e sel)
  obtain k0 b0 where e: "e = (k0, b0)" by (cases e)
  have d: "distinct (map fst sel)" and notin: "k0 \<notin> fst ` set sel"
    using Cons.prems e by auto
  have ih: "map_of (acc_wholeIndices (fold (add_index Math_pow v p) sel (add_index Math_pow v p e s))) k =
     (if (k, True) \<in> set sel
      then Some (jadd (record_num (acc_wholeIndices (add_index Math_pow v p e s)) k) (pixel_value Math_pow k p))
      else map_of (acc_wholeIndices (add_index Math_pow v p e s)) k)"
    by (rule Cons.IH [OF d])
  show ?case
  proof (cases "k = k0")
    case True
    then have "(k, True) \<notin> set sel" using notin by force
    then show ?thesis using ih True e by (auto simp: add_index_whole)
  next
    case False
    then have "record_num (acc_wholeIndices (add_index Math_pow v p e s)) k = record_num (acc_wholeIndices s) k"
      using e by (simp add: record_num_def add_index_whole)
    then show ?thesis using ih False e by (auto simp: add_index_whole)
  qed
qed

lemma fold_add_index_veg:
  "distinct (map fst sel) \<Longrightarrow>
   map_of (acc_vegetationIndices (fold (add_index Math_pow v p) sel s)) k =
     (if (k, True) \<in> set sel \<and> v
      then Some (jadd (record_num (acc_vegetationIndices s) k) (pixel_value Math_pow k p))
      else map_of (acc_vegetationIndices s) k)"
proof (induction sel arbitrary: s)
  case Nil
  then show ?case by simp
next
  case (Cons e sel)
  obtain k0 b0 where e: "e = (k0, b0)" by (cases e)
  have d: "distinct (map fst sel)" and notin: "k0 \<notin> fst ` set sel"
    using Cons.prems e by auto
  have ih: "map_of (acc_vegetationIndices (fold (add_index Math_pow v p) sel (add_index Math_pow v p e s))) k =
     (if (k, True) \<in> set sel \<and> v
      then Some (jadd (record_num (acc_vegetationIndices (add_index Math_pow v p e s)) k) (pixel_value Math_pow k p))
      else map_of (acc_vegetationIndices (add_index Math_pow v p e s)) k)"
    by (rule Cons.IH [OF d])
  show ?case
  proof (cases "k = k0")
    case True
    then have "(k, True) \<notin> set sel" using notin by force
    then show ?thesis using ih True e by (auto simp: add_index_veg)
  next
    case False
    then have "record_num (acc_vegetationIndices (add_index Math_pow v p e s)) k
                 = record_num (acc_vegetationIndices s) k"
      using e by (simp add: record_num_def add_index_veg)
    then show ?thesis using ih False e by (auto simp: add_index_veg)
  qed
qed

subsection \<open>The pixel loop\<close>

lemma pixel_step_count:
  "acc_vegetationPixels (pixel_step Math_pow t sel p i s) =
     acc_vegetationPixels s + (if jge (pixel_exg p) t then 1 else 0)"
  by (simp add: pixel_step_def Let_def fold_add_index_counts)

lemma pixel_step_mask:
  "acc_vegetationMask (pixel_step Math_pow t sel p i s) = (acc_vegetationMask s)[i := jge (pixel_exg p) t]"
  by (simp add: pixel_step_def Let_def fold_add_index_counts)

lemma pixel_step_whole:
  "distinct (map fst sel) \<Longrightarrow>
   map_of (acc_wholeIndices (pixel_step Math_pow t sel p i s)) k =
     (if (k, True) \<in> set sel
      then Some (jadd (record_num (acc_wholeIndices s) k) (pixel_value Math_pow k p))
      else map_of (acc_wholeIndices s) k)"
  by (simp add: pixel_step_def Let_def fold_add_index_whole)

lemma pixel_step_veg:
  "distinct (map fst sel) \<Longrightarrow>
   map_of (acc_vegetationIndices (pixel_step Math_pow t sel p i s)) k =
     (if (k, True) \<in> set sel \<and> jge (pixel_exg p) t
      then Some (jadd (record_num (acc_vegetationIndices s) k) (pixel_value Math_pow k p))
      else map_of (acc_vegetationIndices s) k)"
  by (simp add: pixel_step_def Let_def fold_add_index_veg)

lemma pixel_loop_count:
  "acc_vegetationPixels (pixel_loop Math_pow t sel data i s) =
     acc_vegetationPixels s + length (filter (\<lambda>p. jge (pixel_exg p) t) data)"
  by (induction data arbitrary: i s) (simp_all add: pixel_step_count)

lemma pixel_loop_mask_length:
  "length (acc_vegetationMask (pixel_loop Math_pow t sel data i s)) = length (acc_vegetationMask s)"
  by (induction data arbitrary: i s) (simp_all add: pixel_step_mask)

lemma pixel_loop_mask_before:
  "j < i \<Longrightarrow> acc_vegetationMask (pixel_loop Math_pow t sel data i s) ! j = acc_vegetationMask s ! j"
  by (induction data arbitrary: i s) (simp_all add: pixel_step_mask)

lemma pixel_loop_mask_at:
  "j < length data \<Longrightarrow> i + j < length (acc_vegetationMask s) \<Longrightarrow>
   acc_vegetationMask (pixel_loop Math_pow t sel data i s) ! (i + j) = jge (pixel_exg (data ! j)) t"
proof (induction data arbitrary: i j s)
  case Nil
  then show ?case by simp
next
  case (Cons p data)
  show ?case
  proof (cases j)
    case 0
    have "acc_vegetationMask (pixel_loop Math_pow t sel data (Suc i) (pixel_step Math_pow t sel p i s)) ! i
            = acc_vegetationMask (pixel_step Math_pow t sel p i s) ! i"
      by (rule pixel_loop_mask_before) simp
    then show ?thesis using 0 Cons.prems by (simp add: pixel_step_mask)
  next
    case (Suc j')
    have "acc_vegetationMask (pixel_loop Math_pow t sel data (Suc i) (pixel_step Math_pow t sel p i s)) ! (Suc i + j')
            = jge (pixel_exg (data ! j')) t"
      using Cons.prems Suc by (intro Cons.IH) (simp_all add: pixel_step_mask)
    then show ?thesis using Suc by simp
  qed
qed

lemma pixel_pass_mask:
  "acc_vegetationMask (pixel_pass Math_pow t sel (length data) data) = map (\<lambda>p. jge (pixel_exg p) t) data"
proof (rule nth_equalityI)
  show "length (acc_vegetationMask (pixel_pass Math_pow t sel (length data) data)) =
          length (map (\<lambda>p. jge (pixel_exg p) t) data)"
    by (simp add: pixel_pass_def pixel_loop_mask_length)
next
  fix j assume "j < length (acc_vegetationMask (pixel_pass Math_pow t sel (length data) data))"
  then have j: "j < length data" by (simp add: pixel_pass_def pixel_loop_mask_length)
  then show "acc_vegetationMask (pixel_pass Math_pow t sel (length data) data) ! j =
               map (\<lambda>p. jge (pixel_exg p) t) data ! j"
    using pixel_loop_mask_at [of j data 0 _ Math_pow t sel] by (simp add: pixel_pass_def)
qed

lemma pixel_loop_whole:
  "distinct (map fst sel) \<Longrightarrow> (k, True) \<in> set sel \<Longrightarrow> map_of (acc_wholeIndices s) k = Some a \<Longrightarrow>
   map_of (acc_wholeIndices (pixel_loop Math_pow t sel data i s)) k =
     Some (foldl jadd a (map (pixel_value Math_pow k) data))"
proof (induction data arbitrary: i s a)
  case Nil
  then show ?case by simp
next
  case (Cons p data)
  have "map_of (acc_wholeIndices (pixel_step Math_pow t sel p i s)) k = Some (jadd a (pixel_value Math_pow k p))"
    using Cons.prems by (simp add: pixel_step_whole record_num_def)
  then show ?case using Cons.IH [OF Cons.prems(1,2)] by simp
qed

lemma pixel_loop_veg:
  "distinct (map fst sel) \<Longrightarrow> (k, True) \<in> set sel \<Longrightarrow>
   map_of (acc_vegetationIndices s) k = Some a \<Longrightarrow>
   map_of (acc_vegetationIndices (pixel_loop Math_pow t sel data i s)) k =
     Some (foldl jadd a (map (pixel_value Math_pow k) (filter (\<lambda>p. jge (pixel_exg p) t) data)))"
proof (induction data arbitrary: i s a)
  case Nil
  then show ?case by simp
next
  case (Cons p data)
  show ?case
  proof (cases "jge (pixel_exg p) t")
    case True
    have "map_of (acc_vegetationIndices (pixel_step Math_pow t sel p i s)) k = Some (jadd a (pixel_value Math_pow k p))"
      using Cons.prems True by (simp add: pixel_step_veg record_num_def)
    then show ?thesis using Cons.IH [OF Cons.prems(1,2)] True by simp
  next
    case False
    have "map_of (acc_vegetationIndices (pixel_step Math_pow t sel p i s)) k = Some a"
      using Cons.prems False by (simp add: pixel_step_veg)
    then show ?thesis using Cons.IH [OF Cons.prems(1,2)] False by simp
  qed
qed

lemma add_index_distinct:
  "distinct (map fst (acc_wholeIndices s)) \<Longrightarrow>
   distinct (map fst (acc_wholeIndices (add_index Math_pow v p e s)))"
  by (cases e) (simp add: add_index_def Let_def distinct_record_set)

lemma fold_add_index_distinct:
  "distinct (map fst (acc_wholeIndices s)) \<Longrightarrow>
   distinct (map fst (acc_wholeIndices (fold (add_index Math_pow v p) sel s)))"
  by (induction sel arbitrary: s) (simp_all add: add_index_distinct)

lemma pixel_loop_distinct:
  "distinct (map fst (acc_wholeIndices s)) \<Longrightarrow>
   distinct (map fst (acc_wholeIndices (pixel_loop Math_pow t sel data i s)))"
  by (induction data arbitrary: i s) (simp_all add: pixel_step_def Let_def fold_add_index_distinct)

subsection \<open>Initialisation\<close>

lemma fold_init_map_of:
  "map_of (fold (\<lambda>key m. if c key then record_set key (Fin 0) m else m) keys m) k =
     (if k \<in> set keys \<and> c k then Some (Fin 0) else map_of m k)"
  by (induction keys arbitrary: m) (auto simp: map_of_record_set)

lemma fold_init_distinct:
  "distinct (map fst m) \<Longrightarrow>
   distinct (map fst (fold (\<lambda>key m. if c key then record_set key (Fin 0) m else m) keys m))"
  by (induction keys arbitrary: m) (simp_all add: distinct_record_set)

lemma init_indices_map_of:
  assumes "distinct (map fst sel)"
  shows "map_of (init_indices sel) k = (if (k, True) \<in> set sel then Some (Fin 0) else None)"
proof -
  have iff: "map_of sel k = Some True \<longleftrightarrow> (k, True) \<in> set sel"
    using assms by simp
  have "(case map_of sel k of Some True \<Rightarrow> True | _ \<Rightarrow> False) = (map_of sel k = Some True)"
    by (simp split: option.splits bool.splits)
  moreover have "(k, True) \<in> set sel \<Longrightarrow> k \<in> fst ` set sel" by force
  ultimately show ?thesis
    using iff by (auto simp: init_indices_def fold_init_map_of)
qed

lemma init_indices_distinct: "distinct (map fst (init_indices sel))"
  unfolding init_indices_def by (rule fold_init_distinct) simp

subsection \<open>Averaging\<close>

lemma fold_average_key:
  "distinct keys \<Longrightarrow> fold (average_key n v) keys (W, V) = (W', V') \<Longrightarrow>
   map_of W' k = (if k \<in> set keys then Some (jdiv (record_num W k) (Fin (real n))) else map_of W k)
   \<and> map_of V' k =
       (if k \<in> set keys
        then Some (if v > 0 then jdiv (record_num V k) (Fin (real v)) else Fin 0)
        else map_of V k)"
proof (induction keys arbitrary: W V)
  case Nil
  then show ?case by simp
next
  case (Cons key keys)
  let ?W1 = "record_set key (jdiv (record_num W key) (Fin (real n))) W"
  let ?V1 = "record_set key (if v > 0 then jdiv (record_num V key) (Fin (real v)) else Fin 0) V"
  have step: "average_key n v key (W, V) = (?W1, ?V1)" by (simp add: average_key_def)
  have d: "distinct keys" and notin: "key \<notin> set keys" using Cons.prems by auto
  have f: "fold (average_key n v) keys (?W1, ?V1) = (W', V')" using Cons.prems step by simp
  note ih = Cons.IH [OF d f]
  show ?case
  proof (cases "k = key")
    case True
    then show ?thesis using ih notin by (simp add: map_of_record_set)
  next
    case False
    then show ?thesis using ih by (simp add: map_of_record_set record_num_record_set)
  qed
qed

lemma aggregate_fields:
  "vegetationPixels (aggregate n v W V) = v"
  "totalPixels (aggregate n v W V) = n"
  "vegetationCoverage (aggregate n v W V) = jmul (jdiv (Fin (real v)) (Fin (real n))) (Fin 100)"
  by (simp_all add: aggregate_def split: prod.splits)

lemma aggregate_indices:
  assumes "distinct (map fst W)" and "map_of W k = Some a" and "map_of V k = Some b"
  shows "map_of (whole (indices (aggregate n v W V))) k = Some (jdiv a (Fin (real n)))"
    and "map_of (vegetation (indices (aggregate n v W V))) k =
           Some (if v > 0 then jdiv b (Fin (real v)) else Fin 0)"
proof -
  obtain W' V' where f: "fold (average_key n v) (map fst W) (W, V) = (W', V')"
    by (cases "fold (average_key n v) (map fst W) (W, V)")
  have k: "k \<in> set (map fst W)" using assms(2) by (metis map_of_eq_None_iff option.distinct(1) set_map)
  have res: "indices (aggregate n v W V) = \<lparr>vegetation = V', whole = W'\<rparr>"
    by (simp add: aggregate_def f)
  show "map_of (whole (indices (aggregate n v W V))) k = Some (jdiv a (Fin (real n)))"
    using fold_average_key [OF assms(1) f, of k] k assms(2) by (simp add: res record_num_def)
  show "map_of (vegetation (indices (aggregate n v W V))) k =
           Some (if v > 0 then jdiv b (Fin (real v)) else Fin 0)"
    using fold_average_key [OF assms(1) f, of k] k assms(3) by (simp add: res record_num_def)
qed



subsection \<open>Reading the image\<close>

lemma getImageData_length:
  "getImageData img sw sh = Inr data \<Longrightarrow> length data = sw * sh \<and> data \<noteq> []"
  by (auto simp: getImageData_def split: if_splits)

lemma getImageData_row:
  "data \<noteq> [] \<Longrightarrow> getImageData (row_image data) (width (row_image data)) (height (row_image data))
     = Inr data"
  by (simp add: getImageData_def row_image_def map_nth)

lemma processImage_ready_exg:
  "getImageData img (width img) (height img) = Inr data \<Longrightarrow>
   processImage Math_pow refs_ready exg t sel img =
     Inr (Some (analyse_pixels Math_pow t sel (length data) data))"
  by (auto simp: processImage_def refs_ready_def createImageData_def getImageData_def Let_def
      split: if_splits)

lemma processImage_ready_otsu:
  "getImageData img (width img) (height img) = Inr data \<Longrightarrow>
   calculateOtsuThreshold data = Inr t \<Longrightarrow>
   processImage Math_pow refs_ready otsu t0 sel img =
     Inr (Some (analyse_pixels Math_pow t sel (length data) data))"
  by (auto simp: processImage_def refs_ready_def createImageData_def getImageData_def Let_def
      split: if_splits)

lemma veg_filter_spec:
  "filter (\<lambda>p. jge (pixel_exg p) t) data = spec_vegetation t data"
  by (simp add: spec_vegetation_def pixel_exg_spec)

lemma analyse_counts:
  "totalPixels (analyse_pixels Math_pow t sel n data) = n"
  "vegetationPixels (analyse_pixels Math_pow t sel n data) = length (spec_vegetation t data)"
  "vegetationCoverage (analyse_pixels Math_pow t sel n data) =
     jmul (jdiv (Fin (real (length (spec_vegetation t data)))) (Fin (real n))) (Fin 100)"
  by (simp_all add: analyse_pixels_def Let_def aggregate_fields pixel_pass_def pixel_loop_count
      veg_filter_spec)

lemma analyse_indices:
  assumes d: "distinct (map fst sel)" and k: "(key, True) \<in> set sel"
  shows "map_of (whole (indices (analyse_pixels Math_pow t sel n data))) key =
           Some (jdiv (running_sum (map (spec_index Math_pow key) data)) (Fin (real n)))"
    and "map_of (vegetation (indices (analyse_pixels Math_pow t sel n data))) key =
           Some (if length (spec_vegetation t data) > 0
                 then spec_mean (map (spec_index Math_pow key) (spec_vegetation t data)) else Fin 0)"
proof -
  let ?init = "\<lparr>acc_vegetationPixels = 0, acc_vegetationMask = replicate n False,
              acc_vegetationIndices = init_indices sel, acc_wholeIndices = init_indices sel\<rparr>"
  let ?s = "pixel_pass Math_pow t sel n data"
  have s: "?s = pixel_loop Math_pow t sel data 0 ?init" by (simp add: pixel_pass_def)
  have i0: "map_of (init_indices sel) key = Some (Fin 0)"
    using init_indices_map_of [OF d, of key] k by simp
  have pv: "pixel_value Math_pow key = spec_index Math_pow key" by (rule ext) (rule pixel_value_spec)
  have W: "map_of (acc_wholeIndices ?s) key = Some (running_sum (map (spec_index Math_pow key) data))"
    unfolding s using pixel_loop_whole [OF d k, of ?init "Fin 0" Math_pow t data 0] i0
    by (simp add: running_sum_def pv)
  have V: "map_of (acc_vegetationIndices ?s) key =
             Some (running_sum (map (spec_index Math_pow key) (spec_vegetation t data)))"
    unfolding s using pixel_loop_veg [OF d k, of ?init "Fin 0" Math_pow t data 0] i0
    by (simp add: running_sum_def pv veg_filter_spec)
  have D: "distinct (map fst (acc_wholeIndices ?s))"
    unfolding s by (rule pixel_loop_distinct) (simp add: init_indices_distinct)
  have c: "acc_vegetationPixels ?s = length (spec_vegetation t data)"
    by (simp add: pixel_pass_def pixel_loop_count veg_filter_spec)
  show "map_of (whole (indices (analyse_pixels Math_pow t sel n data))) key =
           Some (jdiv (running_sum (map (spec_index Math_pow key) data)) (Fin (real n)))"
    using aggregate_indices(1) [OF D W V]
    by (simp add: analyse_pixels_def Let_def)
  show "map_of (vegetation (indices (analyse_pixels Math_pow t sel n data))) key =
           Some (if length (spec_vegetation t data) > 0
                 then spec_mean (map (spec_index Math_pow key) (spec_vegetation t data)) else Fin 0)"
    using aggregate_indices(2) [OF D W V, of n "acc_vegetationPixels ?s"]
    by (simp add: analyse_pixels_def Let_def spec_mean_def c)
qed

lemma analyse_spec_result:
  assumes "distinct (map fst sel)" and "(key, True) \<in> set sel"
  shows "spec_result Math_pow t key data (analyse_pixels Math_pow t sel (length data) data)"
  unfolding spec_result_def
  using analyse_indices [OF assms, of Math_pow t "length data" data]
  by (simp add: analyse_counts spec_mean_def)

subsection \<open>Sample values\<close>

lemma round64_half: "round64 (1 / 2) = Fin (1 / 2)"
  by (subst round64_eval [where e = "- 1"])
    (simp_all add: power_int_def power_one_over round_half_even_def Let_def)

lemma round64_23_160: "round64 (23 / 160) = Fin (5179139571476070 / 2 ^ 55)"
  by (subst round64_eval [where e = "- 3"])
    (simp_all add: power_int_def power_one_over round_half_even_def Let_def)

lemma round64_coverage: "round64 (5179139571476070 / 2 ^ 55 * 100) = Fin (115 / 8 - 1 / 2 ^ 49)"
  by (subst round64_eval [where e = 3])
    (simp_all add: power_int_def power_one_over round_half_even_def Let_def)

lemma round64_115_8: "round64 (115 / 8) = Fin (115 / 8)"
  by (subst round64_eval [where e = 3])
    (simp_all add: power_int_def power_one_over round_half_even_def Let_def)

lemma coverage_23_160:
  "jmul (jdiv (Fin 23) (Fin 160)) (Fin 100) = Fin (115 / 8 - 1 / 2 ^ 49)"
  "jdiv (jmul (Fin 100) (Fin 23)) (Fin 160) = Fin (115 / 8)"
  using round64_coverage round64_115_8 by (simp_all add: round64_23_160)

lemma round64_1_12: "round64 (1 / 12) = Fin (6004799503160661 / 2 ^ 56)"
  by (subst round64_eval [where e = "- 4"])
    (simp_all add: power_int_def power_one_over round_half_even_def Let_def)

lemma round64_5_12: "round64 (5 / 12) = Fin (7505999378950827 / 2 ^ 54)"
  by (subst round64_eval [where e = "- 2"])
    (simp_all add: power_int_def power_one_over round_half_even_def Let_def)

lemma round64_boundary_1:
  "round64 (1 - 6004799503160661 / 2 ^ 56) = Fin (8256599316845909 / 2 ^ 53)"
  by (subst round64_eval [where e = "- 1"])
    (simp_all add: power_int_def power_one_over round_half_even_def Let_def)

lemma round64_boundary_2:
  "round64 (8256599316845909 / 2 ^ 53 - 7505999378950827 / 2 ^ 54) = Fin (1 / 2 - 1 / 2 ^ 54)"
  by (subst round64_eval [where e = "- 2"])
    (simp_all add: power_int_def power_one_over round_half_even_def Let_def)

lemma spec_exg_boundary: "spec_exg boundary_pixel = Fin (1 / 2 - 1 / 2 ^ 54)"
proof -
  have n: "spec_normalized boundary_pixel =
     (Fin (6004799503160661 / 2 ^ 56), Fin (1 / 2), Fin (7505999378950827 / 2 ^ 54))"
    using round64_1_12 round64_half round64_5_12
    by (simp add: spec_normalized_def boundary_pixel_def)
  have "jmul (Fin 2) (Fin (1 / 2)) = Fin 1" by simp
  moreover have "jsub (Fin 1) (Fin (6004799503160661 / 2 ^ 56)) = Fin (8256599316845909 / 2 ^ 53)"
    using round64_boundary_1 by (simp add: jsub_def)
  moreover have "jsub (Fin (8256599316845909 / 2 ^ 53)) (Fin (7505999378950827 / 2 ^ 54))
                   = Fin (1 / 2 - 1 / 2 ^ 54)"
    using round64_boundary_2 by (simp add: jsub_def)
  ultimately show ?thesis by (simp only: spec_exg_def n prod.case)
qed

text \<open>
  The pixel \<open>(236, 172, 108)\<close> has \<open>2G = R + B\<close>; the rounded quotients leave its
  excess green just below \<open>0\<close>, so a threshold of \<open>0\<close> does not count it.
\<close>

lemma spec_normalized_balanced:
  "spec_normalized balanced_pixel =
     (Fin (8239143504336721 / 2 ^ 54), Fin (6004799503160661 / 2 ^ 54),
      Fin (7540911003969203 / 2 ^ 55))"
proof -
  have r: "round64 (236 / 516) = Fin (8239143504336721 / 2 ^ 54)"
    by (subst round64_eval [where e = "- 2"])
      (simp_all add: power_int_def power_one_over round_half_even_def Let_def)
  have g: "round64 (172 / 516) = Fin (6004799503160661 / 2 ^ 54)"
    by (subst round64_eval [where e = "- 2"])
      (simp_all add: power_int_def power_one_over round_half_even_def Let_def)
  have b: "round64 (108 / 516) = Fin (7540911003969203 / 2 ^ 55)"
    by (subst round64_eval [where e = "- 3"])
      (simp_all add: power_int_def power_one_over round_half_even_def Let_def)
  show ?thesis using r g b by (simp add: spec_normalized_def balanced_pixel_def)
qed

lemma spec_exg_balanced: "spec_exg balanced_pixel = Fin (- 1 / 2 ^ 55)"
proof -
  have a: "jmul (Fin 2) (Fin (6004799503160661 / 2 ^ 54)) = Fin (6004799503160661 / 2 ^ 53)"
    by (simp, subst round64_eval [where e = "- 1"])
      (simp_all add: power_int_def power_one_over round_half_even_def Let_def)
  have b: "jsub (Fin (6004799503160661 / 2 ^ 53)) (Fin (8239143504336721 / 2 ^ 54))
           = Fin (3770455501984601 / 2 ^ 54)"
    by (simp add: jsub_def, subst round64_eval [where e = "- 3"])
      (simp_all add: power_int_def power_one_over round_half_even_def Let_def)
  have c: "jsub (Fin (3770455501984601 / 2 ^ 54)) (Fin (7540911003969203 / 2 ^ 55))
           = Fin (- 1 / 2 ^ 55)"
    by (simp add: jsub_def, subst round64_eval [where e = "- 55"])
      (simp_all add: power_int_def power_one_over round_half_even_def Let_def)
  show ?thesis by (simp only: spec_exg_def spec_normalized_balanced prod.case a b c)
qed

lemma balanced_pixel_below_zero:
  "pixel_exg balanced_pixel = Fin (- 1 / 2 ^ 55)"
  "\<not> jge (pixel_exg balanced_pixel) (Fin 0)"
  by (simp_all add: pixel_exg_spec spec_exg_balanced jge_Fin)

lemma exg_samples:
  "spec_index Math_pow ExG black = Fin 0" "spec_index Math_pow ExG pure_green = Fin 2"
  using spec_exg_black spec_exg_pure_green by (simp_all add: spec_index_def spec_exg_def)

lemma sample_vegetation:
  "spec_vegetation (Fin (1 / 2)) [pure_green, black] = [pure_green]"
  by (simp add: spec_vegetation_def spec_exg_pure_green spec_exg_black jge_Fin)

text \<open>
  C1, amended: for an image with pixels, any threshold and any selected key, the
  result of \<open>processImage\<close> has \<open>indices.whole[key]\<close> equal to the running binary64 sum,
  in pixel order, of the key's formula over the normalized RGB of all pixels, divided
  by \<open>totalPixels\<close>; \<open>indices.vegetation[key]\<close> equal to the like sum over the vegetation
  pixels divided by \<open>vegetationPixels\<close>, or \<open>0\<close> without vegetation pixels; and
  \<open>vegetationCoverage\<close> equal to \<open>(vegetationPixels / totalPixels) * 100\<close>, the quotient
  rounded before the multiplication. This holds with a fixed threshold and with the
  Otsu threshold. The keys of \<open>selectedIndices\<close> are distinct, as the properties of an
  object are.
\<close>

theorem analysis_result_means:
  assumes "getImageData img (width img) (height img) = Inr data"
    and "distinct (map fst selectedIndices)"
    and "(key, True) \<in> set selectedIndices"
  shows "(\<exists>res. processImage Math_pow refs_ready exg \<tau> selectedIndices img = Inr (Some res)
            \<and> spec_result Math_pow \<tau> key data res)
    \<and> (\<exists>x res. calculateOtsuThreshold data = Inr (Fin x)
            \<and> processImage Math_pow refs_ready otsu \<tau> selectedIndices img = Inr (Some res)
            \<and> spec_result Math_pow (Fin x) key data res)"
proof -
  obtain x where x: "calculateOtsuThreshold data = Inr (Fin x)"
    using calculateOtsuThreshold_returns [of data] by blast
  show ?thesis
    using analyse_spec_result [OF assms(2,3)] x
    by (auto simp: processImage_ready_exg [OF assms(1)] processImage_ready_otsu [OF assms(1) x])
qed

theorem analysis_result_means_witness:
  "getImageData (row_image [pure_green, black]) (width (row_image [pure_green, black]))
     (height (row_image [pure_green, black])) = Inr [pure_green, black]
   \<and> distinct (map fst [(ExG, True), (NRI, False)])
   \<and> (ExG, True) \<in> set [(ExG, True), (NRI, False)]
   \<and> (\<exists>res. processImage sample_pow refs_ready exg (Fin (1 / 2)) [(ExG, True), (NRI, False)]
               (row_image [pure_green, black]) = Inr (Some res)
          \<and> totalPixels res = 2 \<and> vegetationPixels res = 1
          \<and> map_of (whole (indices res)) ExG = Some (Fin 1)
          \<and> map_of (vegetation (indices res)) ExG = Some (Fin 2)
          \<and> vegetationCoverage res = Fin 50)"
proof -
  have a: "getImageData (row_image [pure_green, black]) (width (row_image [pure_green, black]))
     (height (row_image [pure_green, black])) = Inr [pure_green, black]"
    by (rule getImageData_row) simp
  have b: "distinct (map fst [(ExG, True), (NRI, False)])" by simp
  have c: "(ExG, True) \<in> set [(ExG, True), (NRI, False)]" by simp
  have cov: "jmul (jdiv (Fin 1) (Fin 2)) (Fin 100) = Fin 50"
    using round64_half by simp
  show ?thesis
    using analysis_result_means [OF a b c, of sample_pow "Fin (1 / 2)"] a cov
    by (auto simp: spec_result_def sample_vegetation spec_mean_def running_sum_def exg_samples)
qed

lemma sparse_green_facts:
  "length sparse_green = 160" "sparse_green \<noteq> []"
  "spec_vegetation (Fin (1 / 2)) sparse_green = replicate 23 pure_green"
  by (simp_all add: sparse_green_def spec_vegetation_def spec_exg_pure_green spec_exg_black jge_Fin)

text \<open>
  C1 fails as stated: for 23 vegetation pixels among 160 the code returns
  \<open>(23 / 160) * 100\<close> with the quotient rounded first, \<open>14.374999999999998\<close>, which is
  neither the exact \<open>100 * 23 / 160 = 14.375\<close> nor that expression evaluated in binary64.
\<close>

theorem coverage_differs_from_formula:
  "\<exists>res. processImage sample_pow refs_ready exg (Fin (1 / 2)) [(ExG, True)] (row_image sparse_green)
            = Inr (Some res)
     \<and> totalPixels res = 160 \<and> vegetationPixels res = 23
     \<and> vegetationCoverage res = Fin (115 / 8 - 1 / 2 ^ 49)
     \<and> vegetationCoverage res \<noteq> Fin (100 * 23 / 160)
     \<and> vegetationCoverage res \<noteq> jdiv (jmul (Fin 100) (Fin 23)) (Fin 160)"
proof -
  define res where "res = analyse_pixels sample_pow (Fin (1 / 2)) [(ExG, True)] (length sparse_green) sparse_green"
  have g: "getImageData (row_image sparse_green) (width (row_image sparse_green))
             (height (row_image sparse_green)) = Inr sparse_green"
    by (rule getImageData_row) (rule sparse_green_facts(2))
  have p: "processImage sample_pow refs_ready exg (Fin (1 / 2)) [(ExG, True)] (row_image sparse_green)
             = Inr (Some res)"
    by (simp add: processImage_ready_exg [OF g] res_def)
  have t: "totalPixels res = 160" and v: "vegetationPixels res = 23"
    by (simp_all add: res_def analyse_counts sparse_green_facts)
  have c: "vegetationCoverage res = Fin (115 / 8 - 1 / 2 ^ 49)"
    using coverage_23_160(1)
    by (simp add: res_def analyse_counts sparse_green_facts del: jdiv.simps jmul.simps)
  have n1: "vegetationCoverage res \<noteq> Fin (100 * 23 / 160)" by (simp add: c)
  have n2: "vegetationCoverage res \<noteq> jdiv (jmul (Fin 100) (Fin 23)) (Fin 160)"
    by (simp only: c coverage_23_160(2)) simp
  show ?thesis using p t v c n1 n2 by blast
qed

text \<open>
  C2: the ExG value the classifier computes for a pixel is \<open>2g - r - b\<close> of the
  normalized triple of the specification, \<open>0\<close> for a black pixel; the mask marks a pixel
  exactly when that value is \<open>\<ge> \<tau>\<close>, and \<open>vegetationPixels\<close> is the number of pixels so
  marked. The value is the binary64 one: for the pixel \<open>(1, 6, 5)\<close> it is
  \<open>0.49999999999999994\<close>, below a threshold of \<open>0.5\<close>.
\<close>

theorem classifier_is_exg_threshold:
  "pixel_exg p = spec_exg p
   \<and> (red p = 0 \<and> green p = 0 \<and> blue p = 0 \<longrightarrow> spec_exg p = Fin 0)
   \<and> acc_vegetationMask (pixel_pass Math_pow \<tau> selectedIndices (length data) data) =
        map (\<lambda>p. jge (spec_exg p) \<tau>) data
   \<and> acc_vegetationPixels (pixel_pass Math_pow \<tau> selectedIndices (length data) data) =
        length (filter (\<lambda>p. jge (spec_exg p) \<tau>) data)
   \<and> (getImageData img (width img) (height img) = Inr data \<longrightarrow>
        (\<exists>res. processImage Math_pow refs_ready exg \<tau> selectedIndices img = Inr (Some res)
           \<and> vegetationPixels res = length (filter (\<lambda>p. jge (spec_exg p) \<tau>) data))
        \<and> (\<exists>x res. calculateOtsuThreshold data = Inr (Fin x)
           \<and> processImage Math_pow refs_ready otsu \<tau> selectedIndices img = Inr (Some res)
           \<and> vegetationPixels res = length (filter (\<lambda>p. jge (spec_exg p) (Fin x)) data)))"
proof -
  have black: "red p = 0 \<and> green p = 0 \<and> blue p = 0 \<longrightarrow> spec_exg p = Fin 0"
    using spec_exg_zero [of p] by blast
  have mask: "acc_vegetationMask (pixel_pass Math_pow \<tau> selectedIndices (length data) data) =
        map (\<lambda>p. jge (spec_exg p) \<tau>) data"
    by (simp add: pixel_pass_mask pixel_exg_spec)
  have cnt: "acc_vegetationPixels (pixel_pass Math_pow \<tau> selectedIndices (length data) data) =
        length (filter (\<lambda>p. jge (spec_exg p) \<tau>) data)"
    by (simp add: pixel_pass_def pixel_loop_count pixel_exg_spec)
  have res: "vegetationPixels (analyse_pixels Math_pow u selectedIndices n data) =
        length (filter (\<lambda>p. jge (spec_exg p) u) data)" for u n
    by (simp add: analyse_counts spec_vegetation_def)
  obtain x where x: "calculateOtsuThreshold data = Inr (Fin x)"
    using calculateOtsuThreshold_returns [of data] by blast
  have img: "(\<exists>res. processImage Math_pow refs_ready exg \<tau> selectedIndices img = Inr (Some res)
           \<and> vegetationPixels res = length (filter (\<lambda>p. jge (spec_exg p) \<tau>) data))
        \<and> (\<exists>x res. calculateOtsuThreshold data = Inr (Fin x)
           \<and> processImage Math_pow refs_ready otsu \<tau> selectedIndices img = Inr (Some res)
           \<and> vegetationPixels res = length (filter (\<lambda>p. jge (spec_exg p) (Fin x)) data))"
    if g: "getImageData img (width img) (height img) = Inr data"
    using x res by (simp add: processImage_ready_exg [OF g] processImage_ready_otsu [OF g x])
  show ?thesis
    using black mask cnt img by (simp add: pixel_exg_spec)
qed

theorem classifier_is_exg_threshold_witness:
  "pixel_exg boundary_pixel = Fin (1 / 2 - 1 / 2 ^ 54)
   \<and> red black = 0 \<and> green black = 0 \<and> blue black = 0 \<and> spec_exg black = Fin 0
   \<and> acc_vegetationMask (pixel_pass sample_pow (Fin (1 / 2)) [(ExG, True)] 3 [pure_green, boundary_pixel, black])
        = [True, False, False]
   \<and> acc_vegetationPixels (pixel_pass sample_pow (Fin (1 / 2)) [(ExG, True)] 3 [pure_green, boundary_pixel, black])
        = 1
   \<and> getImageData (row_image [pure_green, boundary_pixel, black])
        (width (row_image [pure_green, boundary_pixel, black]))
        (height (row_image [pure_green, boundary_pixel, black]))
        = Inr [pure_green, boundary_pixel, black]
   \<and> (\<exists>res. processImage sample_pow refs_ready exg (Fin (1 / 2)) [(ExG, True)]
               (row_image [pure_green, boundary_pixel, black]) = Inr (Some res)
           \<and> vegetationPixels res = 1)"
proof -
  have g: "getImageData (row_image [pure_green, boundary_pixel, black])
        (width (row_image [pure_green, boundary_pixel, black]))
        (height (row_image [pure_green, boundary_pixel, black]))
        = Inr [pure_green, boundary_pixel, black]"
    by (rule getImageData_row) simp
  have b: "red black = 0 \<and> green black = 0 \<and> blue black = 0" by (simp add: black_def)
  show ?thesis
    using classifier_is_exg_threshold
      [of boundary_pixel sample_pow "Fin (1 / 2)" "[(ExG, True)]"
         "[pure_green, boundary_pixel, black]"
         "row_image [pure_green, boundary_pixel, black]"]
      classifier_is_exg_threshold [of black sample_pow "Fin (1 / 2)" "[]" "[]" empty_image] g b
    by (simp add: spec_exg_boundary spec_exg_pure_green spec_exg_black jge_Fin numeral_3_eq_3)
qed

text \<open>
  C8: \<open>GLA\<close> and \<open>GLI\<close> are two registry entries, with different keys and names, whose
  \<open>calculate\<close> functions agree on every triple.
\<close>

theorem gla_equals_gli:
  "GLA \<noteq> GLI \<and> name (ALGORITHMS GLA) \<noteq> name (ALGORITHMS GLI)
   \<and> calculate (ALGORITHMS GLA) Math_pow r g b = calculate (ALGORITHMS GLI) Math_pow r g b"
  by simp

theorem gla_equals_gli_witness:
  "calculate (ALGORITHMS GLA) sample_pow (Fin 0) (Fin 1) (Fin 0) = calculate (ALGORITHMS GLI) sample_pow (Fin 0) (Fin 1) (Fin 0)
   \<and> calculate (ALGORITHMS GLI) sample_pow (Fin 0) (Fin 1) (Fin 0) = Fin 1"
  using gla_equals_gli [of sample_pow "Fin 0" "Fin 1" "Fin 0"]
  by (simp add: jne_def jsub_def)



section \<open>Unguarded index formulas\<close>

lemma jadd_NaN_right: "jadd a NaN = NaN"
  by (cases a) simp_all

lemma foldl_jadd_NaN: "foldl jadd NaN xs = NaN"
  by (induction xs) simp_all

lemma foldl_jadd_has_NaN: "NaN \<in> set xs \<Longrightarrow> foldl jadd a xs = NaN"
  by (induction xs arbitrary: a) (auto simp: jadd_NaN_right foldl_jadd_NaN)

lemma running_sum_NaN: "NaN \<in> set xs \<Longrightarrow> running_sum xs = NaN"
  by (simp add: running_sum_def foldl_jadd_has_NaN)

lemma round_grid_zero: "round_grid 0 = 0"
  by (simp add: round_grid_def)

lemma unguarded_black:
  "calculate (ALGORITHMS MGRVI) Math_pow (Fin 0) (Fin 0) (Fin 0) = NaN"
  "calculate (ALGORITHMS RGBVI) Math_pow (Fin 0) (Fin 0) (Fin 0) = NaN"
  "calculate (ALGORITHMS VEG) Math_pow (Fin 0) (Fin 0) (Fin 0) = NaN"
  by (simp_all add: jsub_def round_grid_zero)

lemma veg_zero_channel:
  assumes "0 \<le> r" and "0 \<le> b" and "r = 0 \<or> b = 0"
  shows "calculate (ALGORITHMS VEG) Math_pow (Fin r) (Fin g) (Fin b) =
           (if g = 0 then NaN else if g < 0 then NInf else PInf)"
proof -
  define a where "a = round_grid (667 / 1000)"
  define x where "x = (if r = 0 then 0 else Math_pow r a)"
  define y where "y = (if b = 0 then 0 else Math_pow b (round_grid (1 - a)))"
  have xy: "jpow Math_pow (Fin r) a = Fin x"
      "jpow Math_pow (Fin b) (round_grid (1 - a)) = Fin y" "x = 0 \<or> y = 0"
    using assms by (auto simp: x_def y_def)
  have "round64 (x * y) = Fin 0" using xy(3) by auto
  then have "jmul (jpow Math_pow (Fin r) a) (jpow Math_pow (Fin b) (round_grid (1 - a))) = Fin 0"
    by (simp only: xy(1,2) jmul.simps)
  then show ?thesis by (simp add: Let_def a_def inf_of_sign_def del: jpow.simps)
qed

lemma spec_index_black:
  assumes "red p = 0" and "green p = 0" and "blue p = 0"
    and "key = MGRVI \<or> key = RGBVI \<or> key = VEG"
  shows "spec_index Math_pow key p = NaN"
proof -
  have "spec_normalized p = (Fin 0, Fin 0, Fin 0)" using assms(1-3) by (simp add: spec_normalized_def)
  then show ?thesis using assms(4) unguarded_black by (auto simp: spec_index_def)
qed

text \<open>
  C9: on a black pixel \<open>MGRVI\<close>, \<open>RGBVI\<close> and \<open>VEG\<close> evaluate to NaN (\<open>0/0\<close>); \<open>VEG\<close> divides
  by zero when the red or the blue component is \<open>0\<close>, giving NaN or an infinity; and an
  image with a black pixel is analysed without an error, the whole-image mean of such
  an index being NaN.
\<close>

theorem unguarded_indices_propagate_nan:
  "calculate (ALGORITHMS MGRVI) Math_pow (Fin 0) (Fin 0) (Fin 0) = NaN
   \<and> calculate (ALGORITHMS RGBVI) Math_pow (Fin 0) (Fin 0) (Fin 0) = NaN
   \<and> calculate (ALGORITHMS VEG) Math_pow (Fin 0) (Fin 0) (Fin 0) = NaN
   \<and> (0 \<le> r \<and> 0 \<le> b \<and> (r = 0 \<or> b = 0) \<longrightarrow>
        calculate (ALGORITHMS VEG) Math_pow (Fin r) (Fin g) (Fin b) =
          (if g = 0 then NaN else if g < 0 then NInf else PInf))
   \<and> (distinct (map fst selectedIndices) \<and> (key, True) \<in> set selectedIndices
        \<and> (key = MGRVI \<or> key = RGBVI \<or> key = VEG)
        \<and> getImageData img (width img) (height img) = Inr data
        \<and> p \<in> set data \<and> red p = 0 \<and> green p = 0 \<and> blue p = 0 \<longrightarrow>
        (\<exists>res. processImage Math_pow refs_ready exg \<tau> selectedIndices img = Inr (Some res)
           \<and> map_of (whole (indices res)) key = Some NaN))"
proof -
  have last: "\<exists>res. processImage Math_pow refs_ready exg \<tau> selectedIndices img = Inr (Some res)
           \<and> map_of (whole (indices res)) key = Some NaN"
    if d: "distinct (map fst selectedIndices)" and k: "(key, True) \<in> set selectedIndices"
      and u: "key = MGRVI \<or> key = RGBVI \<or> key = VEG"
      and i: "getImageData img (width img) (height img) = Inr data"
      and p: "p \<in> set data" "red p = 0" "green p = 0" "blue p = 0"
  proof -
    have "spec_index Math_pow key p = NaN" using p u by (intro spec_index_black) simp_all
    then have "NaN \<in> set (map (spec_index Math_pow key) data)" using p(1) by force
    then have "running_sum (map (spec_index Math_pow key) data) = NaN" by (rule running_sum_NaN)
    then show ?thesis
      using analyse_indices(1) [OF d k, of Math_pow \<tau> "length data" data]
      by (simp add: processImage_ready_exg [OF i])
  qed
  show ?thesis
    using unguarded_black veg_zero_channel [of r b Math_pow g] last by blast
qed

theorem unguarded_indices_propagate_nan_witness:
  "calculate (ALGORITHMS VEG) sample_pow (Fin 0) (Fin 1) (Fin 0) = PInf
   \<and> distinct (map fst [(MGRVI, True)]) \<and> (MGRVI, True) \<in> set [(MGRVI, True)]
   \<and> getImageData (row_image [pure_green, black]) (width (row_image [pure_green, black]))
        (height (row_image [pure_green, black])) = Inr [pure_green, black]
   \<and> black \<in> set [pure_green, black] \<and> red black = 0 \<and> green black = 0 \<and> blue black = 0
   \<and> (\<exists>res. processImage sample_pow refs_ready exg (Fin (1 / 5)) [(MGRVI, True)]
               (row_image [pure_green, black]) = Inr (Some res)
           \<and> map_of (whole (indices res)) MGRVI = Some NaN)"
proof -
  have g: "getImageData (row_image [pure_green, black]) (width (row_image [pure_green, black]))
        (height (row_image [pure_green, black])) = Inr [pure_green, black]"
    by (rule getImageData_row) simp
  show ?thesis
    using unguarded_indices_propagate_nan
      [of sample_pow 0 0 1 "[(MGRVI, True)]" MGRVI "row_image [pure_green, black]"
         "[pure_green, black]"
         black "Fin (1 / 5)"] g
    by (simp add: black_def)
qed

section \<open>The batch run\<close>

lemma batch_loop_ok_prefix:
  "\<forall>f \<in> set ok. file_error Math_pow refs m t sel f = None \<Longrightarrow>
   \<exists>results'. batch_loop Math_pow refs m t sel (ok @ tail) results visited =
                batch_loop Math_pow refs m t sel tail results' (visited @ map file_name ok)"
proof (induction ok arbitrary: results visited)
  case Nil
  show ?case by (rule exI [of _ results]) simp
next
  case (Cons f ok)
  have f: "file_error Math_pow refs m t sel f = None" and rest: "\<forall>g \<in> set ok. file_error Math_pow refs m t sel g = None"
    using Cons.prems by simp_all
  obtain img r where img: "loaded f = Inr img" and r: "processImage Math_pow refs m t sel img = Inr r"
    using f by (auto simp: file_error_def split: sum.splits)
  show ?case
  proof (cases r)
    case None
    then show ?thesis
      using Cons.IH [OF rest, of results "visited @ [file_name f]"] img r by simp
  next
    case (Some res)
    then show ?thesis
      using Cons.IH [OF rest, of "results @ [with_filename (file_name f) res]" "visited @ [file_name f]"]
        img r by simp
  qed
qed

lemma batch_loop_bad:
  "file_error Math_pow refs m t sel bad = Some e \<Longrightarrow>
   batch_loop Math_pow refs m t sel (bad # rest) results visited = (Inl e, visited @ [file_name bad])"
  by (auto simp: file_error_def split: sum.splits)

lemma batch_first_failure:
  assumes "\<forall>f \<in> set ok. file_error Math_pow refs m t sel f = None"
    and "file_error Math_pow refs m t sel bad = Some e"
  shows "processBatchImages Math_pow N refs m t sel (ok @ bad # rest) =
           (BatchAlert e, map file_name ok @ [file_name bad])"
proof -
  obtain results' where
    "batch_loop Math_pow refs m t sel (ok @ bad # rest) [] [] =
       batch_loop Math_pow refs m t sel (bad # rest) results' ([] @ map file_name ok)"
    using batch_loop_ok_prefix [OF assms(1), of "bad # rest" "[]" "[]"] by blast
  then have "batch_loop Math_pow refs m t sel (ok @ bad # rest) [] [] =
       (Inl e, map file_name ok @ [file_name bad])"
    using batch_loop_bad [OF assms(2)] by simp
  then show ?thesis by (simp add: processBatchImages_def)
qed

text \<open>
  C6: if loading or analysing any file of the batch fails, \<open>processBatchImages\<close> ends in
  the alert of its \<open>catch\<close> block with the error of the first failing file. No CSV is
  produced and the records collected so far are dropped; \<open>loadImage\<close> has been called
  once on each file up to the failing one, in order, and on no file after it.
\<close>

theorem batch_aborts_at_first_failure:
  assumes "f \<in> set batchFiles"
    and "file_error Math_pow refs thresholdMethod threshold selectedIndices f \<noteq> None"
  shows "\<exists>ok bad rest e.
           batchFiles = ok @ bad # rest
           \<and> (\<forall>g \<in> set ok. file_error Math_pow refs thresholdMethod threshold selectedIndices g = None)
           \<and> file_error Math_pow refs thresholdMethod threshold selectedIndices bad = Some e
           \<and> processBatchImages Math_pow NumberToString refs thresholdMethod threshold selectedIndices
                batchFiles
               = (BatchAlert e, map file_name ok @ [file_name bad])"
proof -
  let ?P = "\<lambda>g. file_error Math_pow refs thresholdMethod threshold selectedIndices g \<noteq> None"
  have "\<exists>x \<in> set batchFiles. ?P x" using assms by blast
  then obtain ok bad rest where dec: "batchFiles = ok @ bad # rest" "?P bad"
      "\<forall>g \<in> set ok. \<not> ?P g"
    using split_list_first_prop [of batchFiles ?P] by blast
  obtain e where e: "file_error Math_pow refs thresholdMethod threshold selectedIndices bad = Some e"
    using dec(2) by blast
  have ok: "\<forall>g \<in> set ok. file_error Math_pow refs thresholdMethod threshold selectedIndices g = None"
    using dec(3) by simp
  show ?thesis
    using batch_first_failure [OF ok e, of NumberToString rest] dec(1) ok e by blast
qed

lemma processImage_empty_image:
  "processImage Math_pow refs_ready m t sel empty_image = Inl IndexSizeError"
  by (simp add: processImage_def refs_ready_def getImageData_def empty_image_def)

lemma processImage_row_exg:
  "data \<noteq> [] \<Longrightarrow> processImage Math_pow refs_ready exg t sel (row_image data)
     = Inr (Some (analyse_pixels Math_pow t sel (length data) data))"
  using processImage_ready_exg [OF getImageData_row] by simp

theorem batch_aborts_at_first_failure_witness:
  "\<lparr>file_name = ''b.png'', loaded = Inr empty_image\<rparr> \<in> set sample_batch_empty_image
   \<and> file_error sample_pow refs_ready exg (Fin (1 / 5)) sample_selection
        \<lparr>file_name = ''b.png'', loaded = Inr empty_image\<rparr> = Some IndexSizeError
   \<and> (\<exists>ok bad rest e.
           sample_batch_empty_image = ok @ bad # rest
           \<and> (\<forall>g \<in> set ok. file_error sample_pow refs_ready exg (Fin (1 / 5)) sample_selection g = None)
           \<and> file_error sample_pow refs_ready exg (Fin (1 / 5)) sample_selection bad = Some e
           \<and> processBatchImages sample_pow sample_toString refs_ready exg (Fin (1 / 5)) sample_selection
                sample_batch_empty_image
               = (BatchAlert e, map file_name ok @ [file_name bad]))
   \<and> processBatchImages sample_pow sample_toString refs_ready exg (Fin (1 / 5)) sample_selection
        sample_batch_empty_image
       = (BatchAlert IndexSizeError, [''a.png'', ''b.png''])
   \<and> processBatchImages sample_pow sample_toString refs_ready exg (Fin (1 / 5)) sample_selection sample_batch
       = (BatchAlert LoadRejected, [''a.png'', ''b.png''])"
proof -
  have a: "\<lparr>file_name = ''b.png'', loaded = Inr empty_image\<rparr> \<in> set sample_batch_empty_image"
    by (simp add: sample_batch_empty_image_def)
  have b: "file_error sample_pow refs_ready exg (Fin (1 / 5)) sample_selection
        \<lparr>file_name = ''b.png'', loaded = Inr empty_image\<rparr> = Some IndexSizeError"
    by (simp add: file_error_def processImage_empty_image)
  then have b': "file_error sample_pow refs_ready exg (Fin (1 / 5)) sample_selection
        \<lparr>file_name = ''b.png'', loaded = Inr empty_image\<rparr> \<noteq> None" by simp
  have c: "processBatchImages sample_pow sample_toString refs_ready exg (Fin (1 / 5)) sample_selection
        sample_batch_empty_image
       = (BatchAlert IndexSizeError, [''a.png'', ''b.png''])"
    by (simp add: processBatchImages_def sample_batch_empty_image_def processImage_row_exg
        processImage_empty_image)
  have d: "processBatchImages sample_pow sample_toString refs_ready exg (Fin (1 / 5)) sample_selection sample_batch
       = (BatchAlert LoadRejected, [''a.png'', ''b.png''])"
    by (simp add: processBatchImages_def sample_batch_def processImage_row_exg)
  show ?thesis
    using batch_aborts_at_first_failure [OF a b', of sample_toString] a b c d by blast
qed

section \<open>The CSV document\<close>

lemma array_join_Cons:
  "array_join sep (x # xs) = x @ concat (map (\<lambda>y. sep @ y) xs)"
  by (induction xs arbitrary: x) simp_all

lemma map_raising_ok:
  "\<forall>x \<in> set xs. f x = Inr (g x) \<Longrightarrow> map_raising f xs = Inr (map g xs)"
  by (induction xs) simp_all

lemma index_cell_defined:
  "map_of m key \<noteq> None \<Longrightarrow> index_cell N m key = Inr (toFixed N 4 (record_num m key))"
  by (auto simp: index_cell_def record_num_def)

lemma header_line: "array_join '','' (csv_headers keys) = spec_header keys"
  by (simp add: csv_headers_def spec_header_def array_join_Cons comp_def)

lemma csv_row_ok:
  assumes "\<forall>key \<in> set keys. map_of (vegetation (indices r)) key \<noteq> None
              \<and> map_of (whole (indices r)) key \<noteq> None"
  shows "\<exists>row. csv_row N m t keys r = Inr row \<and> array_join '','' row = spec_row N m t keys r"
proof -
  have v: "map_raising (index_cell N (vegetation (indices r))) keys =
             Inr (map (\<lambda>key. toFixed N 4 (record_num (vegetation (indices r)) key)) keys)"
    using assms by (intro map_raising_ok) (simp add: index_cell_defined)
  have w: "map_raising (index_cell N (whole (indices r))) keys =
             Inr (map (\<lambda>key. toFixed N 4 (record_num (whole (indices r)) key)) keys)"
    using assms by (intro map_raising_ok) (simp add: index_cell_defined)
  show ?thesis
    by (simp add: csv_row_def v w spec_row_def array_join_Cons comp_def)
qed

lemma rows_ok:
  assumes "\<forall>r \<in> set results. \<forall>key \<in> set keys. map_of (vegetation (indices r)) key \<noteq> None
              \<and> map_of (whole (indices r)) key \<noteq> None"
  shows "\<exists>rows. map_raising (csv_row N m t keys) results = Inr rows
           \<and> map (array_join '','') rows = map (spec_row N m t keys) results"
  using assms
proof (induction results)
  case Nil
  then show ?case by simp
next
  case (Cons r results)
  obtain row where row: "csv_row N m t keys r = Inr row" "array_join '','' row = spec_row N m t keys r"
    using csv_row_ok [of keys r N m t] Cons.prems by auto
  obtain rows where rows: "map_raising (csv_row N m t keys) results = Inr rows"
      "map (array_join '','') rows = map (spec_row N m t keys) results"
    using Cons.IH Cons.prems by auto
  show ?case using row rows by simp
qed

lemma downloadCSV_spec:
  assumes "\<forall>r \<in> set results. \<forall>key \<in> set (map fst (filter snd sel)).
             map_of (vegetation (indices r)) key \<noteq> None
              \<and> map_of (whole (indices r)) key \<noteq> None"
  shows "downloadCSV N m t sel results = Inr (spec_csv N m t (map fst (filter snd sel)) results)"
proof -
  have sel: "filter (\<lambda>(_, isSelected). isSelected) sel = filter snd sel"
    by (simp add: case_prod_unfold)
  obtain rows where rows:
      "map_raising (csv_row N m t (map fst (filter snd sel))) results = Inr rows"
      "map (array_join '','') rows = map (spec_row N m t (map fst (filter snd sel))) results"
    using rows_ok [OF assms, of N m t] by auto
  have "concat (map (\<lambda>y. [CHR 0x0A] @ y) (map (array_join '','') rows)) =
        concat (map (\<lambda>r. [CHR 0x0A] @ spec_row N m t (map fst (filter snd sel)) r) results)"
    by (simp only: rows(2)) (simp add: comp_def)
  then show ?thesis
    using rows(1)
    by (simp add: downloadCSV_def Let_def sel array_join_Cons header_line spec_csv_def comp_def)
qed

lemma char_of_digits:
  "char_of (48::nat) = CHR ''0''" "char_of (49::nat) = CHR ''1''" "char_of (50::nat) = CHR ''2''"
  "char_of (51::nat) = CHR ''3''" "char_of (52::nat) = CHR ''4''" "char_of (53::nat) = CHR ''5''"
  "char_of (54::nat) = CHR ''6''" "char_of (55::nat) = CHR ''7''" "char_of (56::nat) = CHR ''8''"
  "char_of (57::nat) = CHR ''9''"
  by (simp_all add: char_of_def bit_numeral_simps bit_0)

lemma is_digit_digit_char: "d < 10 \<Longrightarrow> is_digit (digit_char d)"
proof -
  assume "d < 10"
  then have "d \<in> {0, 1, 2, 3, 4, 5, 6, 7, 8, 9}" by auto
  then show ?thesis by (auto simp: is_digit_def digit_char_def char_of_digits)
qed

lemma nat_digits_digits: "list_all is_digit (nat_digits n)"
proof (induction n rule: nat_digits.induct)
  case (1 n)
  show ?case
  proof (cases "n < 10")
    case True
    then show ?thesis by (subst nat_digits.simps) (simp add: is_digit_digit_char)
  next
    case False
    then show ?thesis using 1 by (subst nat_digits.simps) (simp add: is_digit_digit_char)
  qed
qed

lemma nat_digits_nonempty: "nat_digits n \<noteq> []"
  by (subst nat_digits.simps) simp

lemma is_digit_zero: "is_digit (CHR ''0'')" and minus_not_digit: "\<not> is_digit (CHR ''-'')"
  by (simp_all add: is_digit_def)

lemma toFixed_digits_shape:
  assumes "0 < d"
  shows "\<exists>a b. toFixed_digits d x = a @ [CHR ''.''] @ b \<and> a \<noteq> [] \<and> length b = d
           \<and> list_all is_digit a \<and> list_all is_digit b"
proof -
  define n where "n = nat \<lfloor>x * 10 ^ d + 1 / 2\<rfloor>"
  define m where "m = (if n = 0 then [CHR ''0''] else nat_digits n)"
  define m' where "m' = (if length m \<le> d then replicate (d + 1 - length m) (CHR ''0'') @ m else m)"
  have m: "list_all is_digit m"
    by (simp add: m_def nat_digits_digits is_digit_zero)
  have m'd: "list_all is_digit m'"
    using m by (simp add: m'_def list_all_iff is_digit_zero)
  have len: "d < length m'" by (simp add: m'_def)
  have eq: "toFixed_digits d x = take (length m' - d) m' @ [CHR ''.''] @ drop (length m' - d) m'"
    using assms by (simp add: toFixed_digits_def Let_def n_def m_def m'_def)
  have a: "take (length m' - d) m' \<noteq> []" using len by auto
  have b: "length (drop (length m' - d) m') = d" using len by simp
  have da: "list_all is_digit (take (length m' - d) m')"
    using m'd by (auto simp: list_all_iff dest: in_set_takeD)
  have db: "list_all is_digit (drop (length m' - d) m')"
    using m'd by (auto simp: list_all_iff dest: in_set_dropD)
  show ?thesis using eq a b da db by blast
qed

lemma fixed_format_plain:
  assumes "a \<noteq> []" and "list_all is_digit a" and "list_all is_digit b" and "length b = d"
  shows "fixed_format d (a @ [CHR ''.''] @ b)" and "fixed_format d (CHR ''-'' # a @ [CHR ''.''] @ b)"
proof -
  obtain c cs where a: "a = c # cs" using assms(1) by (cases a) auto
  have c: "c \<noteq> CHR ''-''" using assms(2) a minus_not_digit by auto
  have k: "length (a @ [CHR ''.''] @ b) - d - 1 = length a" using assms(4) by simp
  have k': "length (a @ [CHR ''.''] @ b) - d = Suc (length a)" using assms(4) by simp
  have body: "fixed_format d (a @ [CHR ''.''] @ b) =
     (d + 2 \<le> length (a @ [CHR ''.''] @ b)
         \<and> list_all is_digit (take (length (a @ [CHR ''.''] @ b) - d - 1) (a @ [CHR ''.''] @ b))
         \<and> (a @ [CHR ''.''] @ b) ! (length (a @ [CHR ''.''] @ b) - d - 1) = CHR ''.''
         \<and> list_all is_digit (drop (length (a @ [CHR ''.''] @ b) - d) (a @ [CHR ''.''] @ b)))"
    using a c by (simp add: fixed_format_def Let_def)
  have body': "fixed_format d (CHR ''-'' # a @ [CHR ''.''] @ b) =
     (d + 2 \<le> length (a @ [CHR ''.''] @ b)
         \<and> list_all is_digit (take (length (a @ [CHR ''.''] @ b) - d - 1) (a @ [CHR ''.''] @ b))
         \<and> (a @ [CHR ''.''] @ b) ! (length (a @ [CHR ''.''] @ b) - d - 1) = CHR ''.''
         \<and> list_all is_digit (drop (length (a @ [CHR ''.''] @ b) - d) (a @ [CHR ''.''] @ b)))"
    by (simp add: fixed_format_def Let_def)
  have rhs: "d + 2 \<le> length (a @ [CHR ''.''] @ b)
         \<and> list_all is_digit (take (length (a @ [CHR ''.''] @ b) - d - 1) (a @ [CHR ''.''] @ b))
         \<and> (a @ [CHR ''.''] @ b) ! (length (a @ [CHR ''.''] @ b) - d - 1) = CHR ''.''
         \<and> list_all is_digit (drop (length (a @ [CHR ''.''] @ b) - d) (a @ [CHR ''.''] @ b))"
    unfolding k k' using assms a by (simp add: nth_append)
  show "fixed_format d (a @ [CHR ''.''] @ b)" using body rhs by blast
  show "fixed_format d (CHR ''-'' # a @ [CHR ''.''] @ b)" using body' rhs by blast
qed

lemma toFixed_format:
  assumes "0 < d" and "\<bar>x\<bar> < 10 ^ 21"
  shows "fixed_format d (toFixed N d (Fin x))"
proof -
  obtain a b where ab: "toFixed_digits d \<bar>x\<bar> = a @ [CHR ''.''] @ b" "a \<noteq> []" "length b = d"
      "list_all is_digit a" "list_all is_digit b"
    using toFixed_digits_shape [OF assms(1), of "\<bar>x\<bar>"] by blast
  show ?thesis
  proof (cases "x < 0")
    case True
    then have "toFixed N d (Fin x) = CHR ''-'' # a @ [CHR ''.''] @ b"
      using assms(2) ab(1) by (simp add: Let_def)
    then show ?thesis using fixed_format_plain(2) [OF ab(2,4,5,3)] by simp
  next
    case False
    then have "toFixed N d (Fin x) = a @ [CHR ''.''] @ b"
      using assms(2) ab(1) by (simp add: Let_def)
    then show ?thesis using fixed_format_plain(1) [OF ab(2,4,5,3)] by simp
  qed
qed

lemma nat_digits_small: "n < 10 \<Longrightarrow> nat_digits n = [digit_char n]"
  by (subst nat_digits.simps) simp

lemma nat_digits_step:
  "10 \<le> n \<Longrightarrow> nat_digits n = nat_digits (n div 10) @ [digit_char (n mod 10)]"
  by (subst nat_digits.simps) simp

lemma nat_digits_samples: "nat_digits 1 = ''1''" "nat_digits 2 = ''2''"
  "nat_digits 200 = ''200''" "nat_digits 5000 = ''5000''"
  "nat_digits 10000 = ''10000''" "nat_digits 20000 = ''20000''"
  by (simp_all add: nat_digits_small nat_digits_step digit_char_def char_of_digits)

lemma toFixed_digits_samples:
  "toFixed_digits 2 50 = ''50.00''" "toFixed_digits 3 (1 / 5) = ''0.200''"
  "toFixed_digits 4 2 = ''2.0000''" "toFixed_digits 4 1 = ''1.0000''"
  by (simp_all add: toFixed_digits_def Let_def nat_digits_samples)

lemma nat_digits_one: "nat_digits (Suc 0) = ''1''"
  using nat_digits_samples(1) by simp

text \<open>
  C7: when every record holds a value for each selected key, the text \<open>downloadCSV\<close>
  builds is the document of the specification: the header with the six fixed columns,
  the \<open>(Vegetation)\<close> columns and then the \<open>(Whole)\<close> columns of the selected keys in
  their order; one row per record, in order; \<open>auto\<close> or the threshold with 3 decimals;
  the coverage with 2 and the index values with 4 decimals; commas and newlines as
  delimiters and no quoting. A finite number below \<open>10 ^ 21\<close> printed by \<open>toFixed\<close> with
  \<open>d > 0\<close> has exactly \<open>d\<close> digits after its point.
\<close>

theorem csv_layout:
  assumes "\<forall>r \<in> set results. \<forall>key \<in> set (map fst (filter snd selectedIndices)).
             map_of (vegetation (indices r)) key \<noteq> None
              \<and> map_of (whole (indices r)) key \<noteq> None"
  shows "downloadCSV NumberToString thresholdMethod threshold selectedIndices results =
           Inr (spec_csv NumberToString thresholdMethod threshold
                  (map fst (filter snd selectedIndices)) results)
    \<and> (0 < d \<and> \<bar>x\<bar> < 10 ^ 21 \<longrightarrow> fixed_format d (toFixed NumberToString d (Fin x)))"
  using downloadCSV_spec [OF assms] toFixed_format [of d x NumberToString] by simp

theorem csv_layout_witness:
  "map_of (vegetation (indices sample_record)) ExG \<noteq> None
   \<and> map_of (whole (indices sample_record)) ExG \<noteq> None
   \<and> downloadCSV sample_toString exg (Fin (1 / 5)) sample_selection [sample_record] =
       Inr (''Filename,Total Pixels,Vegetation Pixels,Vegetation Coverage (%),Threshold Method,Threshold Value,Excess Green Index (Vegetation),Excess Green Index (Whole)''
            @ [CHR 0x0A] @ ''a.png,2,1,50.00,exg,0.200,2.0000,1.0000'')
   \<and> fixed_format 2 (toFixed sample_toString 2 (Fin 50)) \<and> toFixed sample_toString 2 (Fin 50) = ''50.00''"
proof -
  have h: "\<forall>r \<in> set [sample_record]. \<forall>key \<in> set (map fst (filter snd sample_selection)).
             map_of (vegetation (indices r)) key \<noteq> None
              \<and> map_of (whole (indices r)) key \<noteq> None"
    by (simp add: sample_record_def sample_selection_def)
  have s: "spec_csv sample_toString exg (Fin (1 / 5)) (map fst (filter snd sample_selection)) [sample_record] =
       ''Filename,Total Pixels,Vegetation Pixels,Vegetation Coverage (%),Threshold Method,Threshold Value,Excess Green Index (Vegetation),Excess Green Index (Whole)''
            @ [CHR 0x0A] @ ''a.png,2,1,50.00,exg,0.200,2.0000,1.0000''"
    by (simp add: spec_csv_def spec_header_def spec_row_def sample_record_def sample_selection_def
        toFixed_digits_samples nat_digits_samples nat_digits_one record_num_def)
  show ?thesis
    using csv_layout [OF h, of sample_toString exg "Fin (1 / 5)" 2 50] s
    by (simp add: sample_record_def toFixed_digits_samples)
qed

end
